theory Spec2Isabelle
  imports Main "HOL-Library.Product_Lexorder"
begin

section \<open>Values, strings and settings\<close>

text \<open>
  The engine is \<^verbatim>\<open>src/backend/pii_detector.py\<close>. Python text is a \<open>string\<close>, one
  \<open>char\<close> per code point (code points below 256; the block character of the
  \<^verbatim>\<open>black_boxes\<close> style lies outside that range and is stood for by one fixed \<open>char\<close>).
  Python integers are \<open>int\<close>. The settings are an untyped dictionary whose values arrive
  from a JSON body, so they are values of \<open>pyval\<close>; so are the values \<^verbatim>\<open>json.loads\<close> returns
  (floats are left out).
\<close>

datatype pyval =
    PNone
  | PBool bool
  | PInt int
  | PStr string
  | PList "pyval list"
  | PDict "(string \<times> pyval) list"

text \<open>Python truthiness, as \<^verbatim>\<open>if x:\<close> and \<^verbatim>\<open>not x\<close> read a value.\<close>

fun truthy :: "pyval \<Rightarrow> bool" where
  "truthy PNone = False"
| "truthy (PBool b) = b"
| "truthy (PInt i) = (i \<noteq> 0)"
| "truthy (PStr s) = (s \<noteq> [])"
| "truthy (PList xs) = (xs \<noteq> [])"
| "truthy (PDict kvs) = (kvs \<noteq> [])"

type_synonym settings = "string \<rightharpoonup> pyval"

text \<open>\<^verbatim>\<open>d.get(key, default)\<close>.\<close>

definition dict_get :: "(string \<rightharpoonup> 'v) \<Rightarrow> string \<Rightarrow> 'v \<Rightarrow> 'v" where
  "dict_get d key dflt = (case d key of None \<Rightarrow> dflt | Some v \<Rightarrow> v)"

text \<open>The exceptions the modelled code can raise.\<close>

datatype error =
    QuotaExceeded     \<comment> \<open>the RuntimeError raised for a rate-limit message\<close>
  | OracleFailed      \<comment> \<open>the RuntimeError raised for every other oracle failure\<close>
  | TypeError         \<comment> \<open>\<^verbatim>\<open>str + x\<close> with \<open>x\<close> not a string\<close>
  | IndexError        \<comment> \<open>\<^verbatim>\<open>xs[0]\<close> on an empty list\<close>

text \<open>\<^verbatim>\<open>needle in hay\<close> on strings, and \<^verbatim>\<open>hay.startswith(needle)\<close> beneath it.\<close>

fun starts_with :: "string \<Rightarrow> string \<Rightarrow> bool" where
  "starts_with [] hay = True"
| "starts_with (n # ns) [] = False"
| "starts_with (n # ns) (h # hs) = (n = h \<and> starts_with ns hs)"

fun str_in :: "string \<Rightarrow> string \<Rightarrow> bool" where
  "str_in needle [] = (needle = [])"
| "str_in needle (h # hs) = (starts_with needle (h # hs) \<or> str_in needle hs)"

text \<open>
  Slices with integer bounds: \<^verbatim>\<open>s[a:b]\<close>, \<^verbatim>\<open>s[:b]\<close> and \<^verbatim>\<open>s[a:]\<close>. A negative bound
  counts from the end, and every bound is clamped to the string.
\<close>

definition slice_bound :: "string \<Rightarrow> int \<Rightarrow> nat" where
  "slice_bound s i = (if i < 0 then nat (int (length s) + i) else min (nat i) (length s))"

definition py_slice :: "string \<Rightarrow> int \<Rightarrow> int \<Rightarrow> string" where
  "py_slice s a b = take (slice_bound s b - slice_bound s a) (drop (slice_bound s a) s)"

definition py_prefix :: "string \<Rightarrow> int \<Rightarrow> string" where
  "py_prefix s b = take (slice_bound s b) s"

definition py_suffix :: "string \<Rightarrow> int \<Rightarrow> string" where
  "py_suffix s a = drop (slice_bound s a) s"

text \<open>\<^verbatim>\<open>str(n)\<close> for an integer, as an f-string formats it.\<close>

definition digit_char :: "nat \<Rightarrow> char" where
  "digit_char d = ''0123456789'' ! d"

function str_nat :: "nat \<Rightarrow> string" where
  "str_nat n = (if n < 10 then [digit_char n] else str_nat (n div 10) @ [digit_char (n mod 10)])"
  by pat_completeness auto
termination
  by (relation "measure (\<lambda>n. n)") auto

declare str_nat.simps [simp del]

definition str_int :: "int \<Rightarrow> string" where
  "str_int i = (if i < 0 then CHR ''-'' # str_nat (nat (- i)) else str_nat (nat i))"

section \<open>Detections\<close>

text \<open>
  A detection is the dictionary the producers build: \<^verbatim>\<open>type\<close>, \<^verbatim>\<open>value\<close>, \<^verbatim>\<open>start\<close>,
  \<^verbatim>\<open>end\<close>. The oracle's annotations (\<^verbatim>\<open>gemini_reasoning\<close>, \<^verbatim>\<open>confidence\<close>,
  \<^verbatim>\<open>reasoning\<close>, \<^verbatim>\<open>gemini_discovered\<close>) are written by \<^verbatim>\<open>detect_all\<close> and read by no
  function of the engine; they are not carried. A detections map is a dictionary in
  insertion order, hence an association list.
\<close>

record detection =
  d_type :: string
  d_value :: string
  d_start :: int
  d_end :: int

type_synonym detections = "(string \<times> detection list) list"

text \<open>\<^verbatim>\<open>{**item, "redaction_label": label}\<close>.\<close>

record labelled =
  item :: detection
  redaction_label :: pyval

section \<open>Label assignment: \<^verbatim>\<open>get_redaction_label\<close>\<close>

definition block_char :: char where
  "block_char = CHR 0xDB"

definition type_labels :: "(string \<times> string) list" where
  "type_labels =
    [(''email'', ''EMAIL''),
     (''phone'', ''PHONE''),
     (''name'', ''NAME''),
     (''address'', ''ADDRESS''),
     (''ssn'', ''SSN''),
     (''credit_card'', ''CARD'')]"

definition get_redaction_label :: "string \<Rightarrow> int \<Rightarrow> settings \<Rightarrow> pyval" where
  "get_redaction_label pii_type index settings =
    (let style = dict_get settings ''redaction_style'' (PStr ''labels'') in
     if style = PStr ''black_boxes'' then PStr (replicate 8 block_char)
     else if style = PStr ''custom'' then dict_get settings ''custom_label'' (PStr ''[REDACTED]'')
     else
       (let label = dict_get (map_of type_labels) pii_type ''REDACTED''
        in PStr (''['' @ label @ ''_'' @ str_int (index + 1) @ '']'')))"

section \<open>Redaction: \<^verbatim>\<open>redact_text\<close>\<close>

text \<open>
  The first loop walks the detections map in order. \<open>type_counts\<close> is the
  \<^verbatim>\<open>defaultdict(int)\<close>; \<open>all_detections\<close> grows at its end.
\<close>

definition enabled :: "settings \<Rightarrow> string \<Rightarrow> bool" where
  "enabled settings pii_type = truthy (dict_get settings (''redact_'' @ pii_type) (PBool True))"

fun label_items ::
  "settings \<Rightarrow> string \<Rightarrow> detection list \<Rightarrow> (string \<Rightarrow> int) \<times> labelled list
    \<Rightarrow> (string \<Rightarrow> int) \<times> labelled list" where
  "label_items settings pii_type [] st = st"
| "label_items settings pii_type (it # items) (type_counts, all_detections) =
    (if enabled settings pii_type then
       (let type_counts' = type_counts(pii_type := type_counts pii_type + 1);
            index = type_counts' pii_type - 1
        in label_items settings pii_type items
             (type_counts',
              all_detections @
                [\<lparr>item = it, redaction_label = get_redaction_label pii_type index settings\<rparr>]))
     else label_items settings pii_type items (type_counts, all_detections))"

fun label_all ::
  "settings \<Rightarrow> detections \<Rightarrow> (string \<Rightarrow> int) \<times> labelled list
    \<Rightarrow> (string \<Rightarrow> int) \<times> labelled list" where
  "label_all settings [] st = st"
| "label_all settings ((pii_type, items) # rest) st =
    label_all settings rest (label_items settings pii_type items st)"

definition label_detections :: "settings \<Rightarrow> detections \<Rightarrow> labelled list" where
  "label_detections settings dets = snd (label_all settings dets (\<lambda>_. 0, []))"

text \<open>The sort key \<^verbatim>\<open>(-(end - start), start)\<close>; the sort is stable, as Python's is.\<close>

definition size_key :: "labelled \<Rightarrow> int \<times> int" where
  "size_key x = (- (d_end (item x) - d_start (item x)), d_start (item x))"

text \<open>The overlap test of the sweep, \<^verbatim>\<open>not (det.end <= kept.start or det.start >= kept.end)\<close>.\<close>

definition overlaps :: "labelled \<Rightarrow> labelled \<Rightarrow> bool" where
  "overlaps det kept =
    (\<not> (d_end (item det) \<le> d_start (item kept) \<or> d_start (item det) \<ge> d_end (item kept)))"

fun remove_overlaps :: "labelled list \<Rightarrow> labelled list \<Rightarrow> labelled list" where
  "remove_overlaps [] filtered_detections = filtered_detections"
| "remove_overlaps (det # dets) filtered_detections =
    (if list_ex (overlaps det) filtered_detections
     then remove_overlaps dets filtered_detections
     else remove_overlaps dets (filtered_detections @ [det]))"

text \<open>
  \<^verbatim>\<open>sort(key=start, reverse=True)\<close> keeps equal keys in their order, as the stable sort on
  the negated key does.
\<close>

definition redaction_plan :: "settings \<Rightarrow> detections \<Rightarrow> labelled list" where
  "redaction_plan settings dets =
    sort_key (\<lambda>x. - d_start (item x))
      (remove_overlaps (sort_key size_key (label_detections settings dets)) [])"

text \<open>
  The guard and the value check of the rewriting loop. Both read \<open>text\<close>, the original
  document, as the source does.
\<close>

definition in_range :: "string \<Rightarrow> labelled \<Rightarrow> bool" where
  "in_range text detection =
    (0 \<le> d_start (item detection) \<and> d_start (item detection) < d_end (item detection)
      \<and> d_end (item detection) \<le> int (length text))"

definition value_matches :: "string \<Rightarrow> labelled \<Rightarrow> bool" where
  "value_matches text detection =
    (let original_text_at_pos = py_slice text (d_start (item detection)) (d_end (item detection));
         detected_value = d_value (item detection)
     in original_text_at_pos = detected_value \<or> str_in detected_value original_text_at_pos)"

fun rewrite :: "string \<Rightarrow> labelled list \<Rightarrow> string \<Rightarrow> error + string" where
  "rewrite text [] redacted_text = Inr redacted_text"
| "rewrite text (detection # rest) redacted_text =
    (if in_range text detection then
       (if value_matches text detection then
          (case redaction_label detection of
             PStr label \<Rightarrow>
               rewrite text rest
                 (py_prefix redacted_text (d_start (item detection)) @ label
                    @ py_suffix redacted_text (d_end (item detection)))
           | _ \<Rightarrow> Inl TypeError)
        else rewrite text rest redacted_text)
     else rewrite text rest redacted_text)"

definition redact_text :: "string \<Rightarrow> detections \<Rightarrow> settings \<Rightarrow> error + string" where
  "redact_text text dets settings =
    (if label_detections settings dets = [] then Inr text
     else rewrite text (redaction_plan settings dets) text)"

section \<open>The applied spans and the replacement they describe\<close>

text \<open>
  The spans the rewriting loop applies are those of the plan that pass its guard and its
  value check. \<open>replace_spans\<close> states the intended result on its own terms: walk the
  original text from left to right over spans in ascending order, copy what lies between
  them and put each label in place of its span.
\<close>

definition applied :: "string \<Rightarrow> labelled list \<Rightarrow> labelled list" where
  "applied text plan = filter (\<lambda>d. in_range text d \<and> value_matches text d) plan"

definition is_str :: "pyval \<Rightarrow> bool" where
  "is_str v = (case v of PStr _ \<Rightarrow> True | _ \<Rightarrow> False)"

definition label_str :: "labelled \<Rightarrow> string" where
  "label_str d = (case redaction_label d of PStr label \<Rightarrow> label | _ \<Rightarrow> [])"

definition span_of :: "labelled \<Rightarrow> nat \<times> nat \<times> string" where
  "span_of d = (nat (d_start (item d)), nat (d_end (item d)), label_str d)"

fun replace_from :: "nat \<Rightarrow> string \<Rightarrow> (nat \<times> nat \<times> string) list \<Rightarrow> string" where
  "replace_from pos text [] = drop pos text"
| "replace_from pos text ((s, e, label) # spans) =
     take (s - pos) (drop pos text) @ label @ replace_from e text spans"

definition replace_spans :: "string \<Rightarrow> (nat \<times> nat \<times> string) list \<Rightarrow> string" where
  "replace_spans text spans = replace_from 0 text spans"

text \<open>
  How far a character at position \<open>p\<close> of the original moves: each replaced span that ends
  at or before \<open>p\<close> contributes the length of its label minus its own length.
\<close>

definition shift3 :: "(nat \<times> nat \<times> string) list \<Rightarrow> nat \<Rightarrow> int" where
  "shift3 A p = sum_list (map (\<lambda>(s, e, l). int (length l) - (int e - int s))
                            (filter (\<lambda>(s, e, l). e \<le> p) A))"

definition offset_shift :: "labelled list \<Rightarrow> nat \<Rightarrow> int" where
  "offset_shift spans p =
     sum_list (map (\<lambda>d. int (length (label_str d)) - (d_end (item d) - d_start (item d)))
                   (filter (\<lambda>d. d_end (item d) \<le> int p) spans))"

text \<open>
  The rewriting loop as the specification words it: the value check reads the slice from
  the current working copy instead of the original text. Everything else is the loop of
  \<open>rewrite\<close>.
\<close>

fun rewrite_live :: "string \<Rightarrow> labelled list \<Rightarrow> string \<Rightarrow> error + string" where
  "rewrite_live text [] redacted_text = Inr redacted_text"
| "rewrite_live text (detection # rest) redacted_text =
    (if in_range text detection then
       (if value_matches redacted_text detection then
          (case redaction_label detection of
             PStr label \<Rightarrow>
               rewrite_live text rest
                 (py_prefix redacted_text (d_start (item detection)) @ label
                    @ py_suffix redacted_text (d_end (item detection)))
           | _ \<Rightarrow> Inl TypeError)
        else rewrite_live text rest redacted_text)
     else rewrite_live text rest redacted_text)"

definition redact_text_live :: "string \<Rightarrow> detections \<Rightarrow> settings \<Rightarrow> error + string" where
  "redact_text_live text dets settings =
    (if label_detections settings dets = [] then Inr text
     else rewrite_live text (redaction_plan settings dets) text)"

text \<open>
  The labels of one category in detection order: the span at position \<open>i\<close> of the
  category's list gets index \<open>i\<close>.
\<close>

definition labels_in_order :: "settings \<Rightarrow> string \<Rightarrow> detection list \<Rightarrow> labelled list" where
  "labels_in_order settings pii_type items =
     map (\<lambda>(i, it). \<lparr>item = it, redaction_label = get_redaction_label pii_type (int i) settings\<rparr>)
         (enumerate 0 items)"

section \<open>String helpers of the oracle adapter\<close>

text \<open>\<^verbatim>\<open>str.strip()\<close> and \<^verbatim>\<open>str.lower()\<close> on code points below 256.\<close>

definition py_space :: "char \<Rightarrow> bool" where
  "py_space c = ((of_char c :: nat) \<in> {9, 10, 11, 12, 13, 28, 29, 30, 31, 32, 133, 160})"

definition strip :: "string \<Rightarrow> string" where
  "strip s = rev (dropWhile py_space (rev (dropWhile py_space s)))"

definition lower_char :: "char \<Rightarrow> char" where
  "lower_char c =
    (let n = (of_char c :: nat)
     in if (65 \<le> n \<and> n \<le> 90) \<or> (192 \<le> n \<and> n \<le> 222 \<and> n \<noteq> 215) then char_of (n + 32) else c)"

definition lower :: "string \<Rightarrow> string" where
  "lower s = map lower_char s"

text \<open>
  \<^verbatim>\<open>s.split(sep)\<close>: \<open>cut\<close> finds the first occurrence of the separator. Python raises
  ValueError for an empty separator; the separators of the source are constants.
\<close>

fun cut :: "string \<Rightarrow> string \<Rightarrow> (string \<times> string) option" where
  "cut sep [] = (if sep = [] then Some ([], []) else None)"
| "cut sep (c # cs) =
    (if starts_with sep (c # cs) then Some ([], drop (length sep) (c # cs))
     else (case cut sep cs of
             None \<Rightarrow> None
           | Some (before, after) \<Rightarrow> Some (c # before, after)))"

function py_split :: "string \<Rightarrow> string \<Rightarrow> string list" where
  "py_split sep s =
    (if sep = [] then [s]
     else (case cut sep s of
             None \<Rightarrow> [s]
           | Some (before, after) \<Rightarrow> before # py_split sep after))"
  by pat_completeness auto
termination
proof (relation "measure (\<lambda>(sep, s). length s)")
  show "wf (measure (\<lambda>(sep, s). length s))" by simp
next
  fix sep s :: string and x2 x y
  assume sep: "sep \<noteq> []" and c: "cut sep s = Some x2" "(x, y) = x2"
  have "cut sep s = Some (b, a) \<Longrightarrow> length a < length s" for b a
  proof (induction s arbitrary: b)
    case Nil
    with sep show ?case by simp
  next
    case (Cons c cs)
    show ?case
    proof (cases "starts_with sep (c # cs)")
      case True
      with Cons.prems sep show ?thesis by (cases sep) auto
    next
      case False
      with Cons.prems obtain b' where "cut sep cs = Some (b', a)"
        by (auto split: option.splits)
      from Cons.IH [OF this] show ?thesis by simp
    qed
  qed
  with c show "((sep, y), (sep, s)) \<in> measure (\<lambda>(sep, s). length s)"
    by auto
qed

declare py_split.simps [simp del]

text \<open>\<^verbatim>\<open>hay.find(needle)\<close>.\<close>

fun find_from :: "string \<Rightarrow> string \<Rightarrow> int \<Rightarrow> int" where
  "find_from needle [] i = (if needle = [] then i else - 1)"
| "find_from needle (h # hs) i =
    (if starts_with needle (h # hs) then i else find_from needle hs (i + 1))"

definition py_find :: "string \<Rightarrow> string \<Rightarrow> int" where
  "py_find hay needle = find_from needle hay 0"

text \<open>\<^verbatim>\<open>sep.join(parts)\<close>.\<close>

fun join :: "string \<Rightarrow> string list \<Rightarrow> string" where
  "join sep [] = []"
| "join sep [x] = x"
| "join sep (x # y # ys) = x @ sep @ join sep (y # ys)"

section \<open>The oracle\<close>

text \<open>
  The oracle is the remote model behind \<^verbatim>\<open>generate_content\<close>. Each prompt is built from a
  few values, and the reply is a function of those: a raised exception with its message
  (\<open>Inl\<close>) or the reply text (\<open>Inr\<close>). \<^verbatim>\<open>json.loads\<close> is the library's parser: it
  returns a value, raises JSONDecodeError, or raises another exception with a message of
  its own (RecursionError on deep nesting, ValueError on an integer with too many digits).
  The discovery reply is taken decoded: \<open>None\<close> for a reply on which the parser raises
  JSONDecodeError, else the entries of \<^verbatim>\<open>new_detections\<close> with the fields read from them
  where present; any other exception raised while decoding counts as a raised exception.
\<close>

datatype loads_result =
    Loaded pyval
  | JSONDecodeError
  | Raised string     \<comment> \<open>another exception, with \<^verbatim>\<open>str(e)\<close>\<close>

record raw_detection =
  r_type :: "string option"
  r_value :: "string option"
  r_start :: "int option"
  r_end :: "int option"

record gemini =
  validate_reply :: "string \<Rightarrow> string \<Rightarrow> string \<Rightarrow> string + string"
  json_loads :: "string \<Rightarrow> loads_result"
  discover_reply :: "string \<Rightarrow> string list \<Rightarrow> string + raw_detection list option"
  explain_reply :: "string list \<Rightarrow> string + string"

text \<open>The handler shared by the three calls: a rate-limit message or any other failure.\<close>

definition quota_error :: "string \<Rightarrow> bool" where
  "quota_error error_msg =
    (str_in ''429'' error_msg \<or> str_in ''quota'' (lower error_msg)
      \<or> str_in ''exceeded'' (lower error_msg))"

definition oracle_error :: "string \<Rightarrow> error" where
  "oracle_error error_msg = (if quota_error error_msg then QuotaExceeded else OracleFailed)"

text \<open>
  Removing a Markdown fence, as both parsers do. \<open>None\<close> is the IndexError of a missing
  list element.
\<close>

definition fence :: string where
  "fence = [CHR 0x60, CHR 0x60, CHR 0x60]"

definition strip_fences :: "string \<Rightarrow> string option" where
  "strip_fences result_text =
    (if str_in (fence @ ''json'') result_text then
       (case py_split (fence @ ''json'') result_text of
          _ # second # _ \<Rightarrow>
            (case py_split fence second of
               first # _ \<Rightarrow> Some (strip first)
             | [] \<Rightarrow> None)
        | _ \<Rightarrow> None)
     else if str_in fence result_text then
       (case py_split fence result_text of
          _ # second # _ \<Rightarrow>
            (case py_split fence second of
               first # _ \<Rightarrow> Some (strip first)
             | [] \<Rightarrow> None)
        | _ \<Rightarrow> None)
     else Some result_text)"

text \<open>
  \<^verbatim>\<open>validate_pii\<close>, from the reply on. The inner handler catches JSONDecodeError only.
  Every other exception inside the \<^verbatim>\<open>try\<close> reaches the outer handler, which reads its
  message: the IndexError above and the AttributeError of \<^verbatim>\<open>.get\<close> on a value that is not
  a dictionary have messages that name no quota; an exception raised by the parser brings
  its own.
\<close>

definition parse_validation ::
  "(string \<Rightarrow> loads_result) \<Rightarrow> string \<Rightarrow> error + (pyval \<times> pyval)" where
  "parse_validation loads response_text =
    (case strip_fences (strip response_text) of
       None \<Rightarrow> Inl OracleFailed
     | Some result_text \<Rightarrow>
        (case loads result_text of
           JSONDecodeError \<Rightarrow>
             (if str_in ''false'' (lower result_text) \<or> str_in ''not pii'' (lower result_text)
              then Inr (PBool False, PStr result_text)
              else Inr (PBool True, PStr result_text))
         | Raised error_msg \<Rightarrow> Inl (oracle_error error_msg)
         | Loaded (PDict result) \<Rightarrow>
             Inr (dict_get (map_of result) ''is_pii'' (PBool True),
                  dict_get (map_of result) ''reasoning'' (PStr ''No reasoning provided''))
         | Loaded _ \<Rightarrow> Inl OracleFailed))"

definition validate_pii ::
  "gemini \<Rightarrow> string \<Rightarrow> string \<Rightarrow> string \<Rightarrow> string \<Rightarrow> error + (pyval \<times> pyval)" where
  "validate_pii orc text candidate pii_type context =
    (case validate_reply orc context candidate pii_type of
       Inl error_msg \<Rightarrow> Inl (oracle_error error_msg)
     | Inr response_text \<Rightarrow> parse_validation (json_loads orc) response_text)"

section \<open>Span producers\<close>

text \<open>
  The regular-expression engine and the entity recogniser are libraries; what they find in
  the text is given. \<open>rmatch\<close> is one match of \<^verbatim>\<open>finditer\<close>: \<^verbatim>\<open>group()\<close>,
  \<^verbatim>\<open>start()\<close>, \<^verbatim>\<open>end()\<close>.
\<close>

record rmatch =
  m_group :: string
  m_start :: int
  m_end :: int

record entity =
  ent_label :: string
  ent_text :: string
  start_char :: int
  end_char :: int

text \<open>A match of the username pattern: the whole match and its group 1.\<close>

record umatch =
  u_start :: int
  u_end :: int
  u_group1 :: string
  u_start1 :: int
  u_end1 :: int

record scans =
  email_matches :: "rmatch list"
  phone_matches :: "rmatch list list"       \<comment> \<open>one list for each of the phone patterns\<close>
  ssn_matches :: "rmatch list"
  credit_card_matches :: "rmatch list"
  address_matches :: "rmatch list list"     \<comment> \<open>one list for each of the address patterns\<close>
  doc_ents :: "entity list option"          \<comment> \<open>\<open>None\<close>: the language model did not load\<close>
  username_matches :: "umatch list"

definition of_match :: "string \<Rightarrow> rmatch \<Rightarrow> detection" where
  "of_match pii_type m =
     \<lparr>d_type = pii_type, d_value = m_group m, d_start = m_start m, d_end = m_end m\<rparr>"

text \<open>\<^verbatim>\<open>re.sub(r'\D', '', s)\<close> keeps the decimal digits.\<close>

definition digits :: "string \<Rightarrow> string" where
  "digits s = filter (\<lambda>c. c \<in> set ''0123456789'') s"

definition detect_emails :: "rmatch list \<Rightarrow> settings \<Rightarrow> detection list" where
  "detect_emails matches settings =
    (if \<not> truthy (dict_get settings ''redact_emails'' (PBool True)) then []
     else map (of_match ''email'') matches)"

fun phone_loop :: "rmatch list \<Rightarrow> (int \<times> int) set \<Rightarrow> detection list \<Rightarrow> detection list" where
  "phone_loop [] seen_positions phones = phones"
| "phone_loop (m # matches) seen_positions phones =
    (let pos = (m_start m, m_end m) in
     if pos \<in> seen_positions then phone_loop matches seen_positions phones
     else if length (digits (m_group m)) \<ge> 10
       then phone_loop matches (insert pos seen_positions) (phones @ [of_match ''phone'' m])
       else phone_loop matches (insert pos seen_positions) phones)"

definition detect_phones :: "rmatch list list \<Rightarrow> settings \<Rightarrow> detection list" where
  "detect_phones matches settings =
    (if \<not> truthy (dict_get settings ''redact_phones'' (PBool True)) then []
     else phone_loop (concat matches) {} [])"

definition detect_ssn :: "rmatch list \<Rightarrow> settings \<Rightarrow> detection list" where
  "detect_ssn matches settings =
    (if \<not> truthy (dict_get settings ''redact_ssn'' (PBool True)) then []
     else map (of_match ''ssn'') matches)"

definition detect_credit_cards :: "rmatch list \<Rightarrow> settings \<Rightarrow> detection list" where
  "detect_credit_cards matches settings =
    (if \<not> truthy (dict_get settings ''redact_credit_cards'' (PBool True)) then []
     else map (of_match ''credit_card'')
            (filter (\<lambda>m. length (digits (m_group m)) = 16) matches))"

fun address_loop :: "rmatch list \<Rightarrow> (int \<times> int) set \<Rightarrow> detection list \<Rightarrow> detection list" where
  "address_loop [] seen_positions addresses = addresses"
| "address_loop (m # matches) seen_positions addresses =
    (let pos = (m_start m, m_end m) in
     if pos \<in> seen_positions then address_loop matches seen_positions addresses
     else address_loop matches (insert pos seen_positions) (addresses @ [of_match ''address'' m]))"

definition detect_addresses :: "rmatch list list \<Rightarrow> settings \<Rightarrow> detection list" where
  "detect_addresses matches settings =
    (if \<not> truthy (dict_get settings ''redact_addresses'' (PBool True)) then []
     else address_loop (concat matches) {} [])"

subsection \<open>Names and the fragment merger\<close>

fun person_loop :: "entity list \<Rightarrow> (int \<times> int) set \<Rightarrow> detection list \<Rightarrow> detection list" where
  "person_loop [] seen_positions names = names"
| "person_loop (ent # ents) seen_positions names =
    (if ent_label ent = ''PERSON'' then
       (if length (strip (ent_text ent)) < 2 then person_loop ents seen_positions names
        else
          (let pos = (start_char ent, end_char ent) in
           if pos \<in> seen_positions then person_loop ents seen_positions names
           else person_loop ents (insert pos seen_positions)
                  (names @ [\<lparr>d_type = ''name'', d_value = strip (ent_text ent),
                             d_start = start_char ent, d_end = end_char ent\<rparr>])))
     else person_loop ents seen_positions names)"

text \<open>
  The two index loops of the merger. \<open>current\<close> is the accumulator and the list is
  \<^verbatim>\<open>names_sorted[j:]\<close>: the inner loop absorbs the next name while it starts within 5
  characters of the accumulator's end; at its \<^verbatim>\<open>break\<close> the accumulator is appended to
  \<^verbatim>\<open>merged_names\<close> and the outer loop starts again at \<open>j\<close>.
\<close>

definition absorb :: "detection \<Rightarrow> detection \<Rightarrow> detection" where
  "absorb current next_name =
     \<lparr>d_type = ''name'',
      d_value = d_value current @ '' '' @ d_value next_name,
      d_start = d_start current,
      d_end = d_end next_name\<rparr>"

fun merge_loop :: "detection \<Rightarrow> detection list \<Rightarrow> detection list" where
  "merge_loop current [] = [current]"
| "merge_loop current (next_name # rest) =
    (if d_start next_name - d_end current \<le> 5
     then merge_loop (absorb current next_name) rest
     else current # merge_loop next_name rest)"

fun merge_names :: "detection list \<Rightarrow> detection list" where
  "merge_names [] = []"
| "merge_names (first # rest) = merge_loop first rest"

definition detect_names :: "entity list option \<Rightarrow> settings \<Rightarrow> detection list" where
  "detect_names ents settings =
    (case ents of
       None \<Rightarrow> []
     | Some doc \<Rightarrow>
        if \<not> truthy (dict_get settings ''redact_names'' (PBool True)) then []
        else merge_names (sort_key d_start (person_loop doc {} [])))"

text \<open>What a run of fragments merges into: the fragment itself when it is alone.\<close>

definition fuse :: "detection \<Rightarrow> detection list \<Rightarrow> detection" where
  "fuse first rest =
    (if rest = [] then first
     else \<lparr>d_type = ''name'',
           d_value = join '' '' (map d_value (first # rest)),
           d_start = d_start first,
           d_end = d_end (last rest)\<rparr>)"

fun username_loop ::
  "string \<Rightarrow> umatch list \<Rightarrow> (int \<times> int) set \<Rightarrow> detection list \<Rightarrow> detection list" where
  "username_loop text [] seen_positions usernames = usernames"
| "username_loop text (m # matches) seen_positions usernames =
    (let pos = (u_start1 m, u_end1 m) in
     if pos \<in> seen_positions then username_loop text matches seen_positions usernames
     else
       (let email_context =
              py_slice text (max 0 (u_start m - 10)) (min (int (length text)) (u_end m + 10))
        in if CHR ''@'' \<in> set email_context
           then username_loop text matches (insert pos seen_positions) usernames
           else username_loop text matches (insert pos seen_positions)
                  (usernames @ [\<lparr>d_type = ''name'', d_value = u_group1 m,
                                 d_start = u_start1 m, d_end = u_end1 m\<rparr>])))"

definition detect_usernames :: "string \<Rightarrow> umatch list \<Rightarrow> settings \<Rightarrow> detection list" where
  "detect_usernames text matches settings =
    (if \<not> truthy (dict_get settings ''redact_names'' (PBool True)) then []
     else username_loop text matches {} [])"

section \<open>The pipeline: \<^verbatim>\<open>detect_all\<close>\<close>

text \<open>Step 1: usernames join the names unless they repeat or overlap one.\<close>

fun add_usernames ::
  "(int \<times> int) set \<Rightarrow> detection list \<Rightarrow> detection list \<Rightarrow> detection list" where
  "add_usernames name_positions [] names = names"
| "add_usernames name_positions (username # usernames) names =
    (if (d_start username, d_end username) \<notin> name_positions then
       (if list_ex (\<lambda>name. \<not> (d_end username \<le> d_start name \<or> d_start username \<ge> d_end name)) names
        then add_usernames name_positions usernames names
        else add_usernames name_positions usernames (names @ [username]))
     else add_usernames name_positions usernames names)"

text \<open>Step 3: validation. The context window is 100 characters on each side.\<close>

definition validate_item ::
  "gemini \<Rightarrow> string \<Rightarrow> string \<Rightarrow> detection \<Rightarrow> error + (pyval \<times> pyval)" where
  "validate_item orc text pii_type it =
    (let start = max 0 (d_start it - 100);
         end_pos = min (int (length text)) (d_end it + 100);
         context = py_slice text start end_pos
     in validate_pii orc text (d_value it) pii_type context)"

fun validate_items ::
  "(detection \<Rightarrow> error + (pyval \<times> pyval)) \<Rightarrow> detection list \<Rightarrow> detection list
    \<Rightarrow> error + detection list" where
  "validate_items v [] validated_items = Inr validated_items"
| "validate_items v (it # items) validated_items =
    (case v it of
       Inl e \<Rightarrow> Inl e
     | Inr (is_valid, reasoning) \<Rightarrow>
         if truthy is_valid then validate_items v items (validated_items @ [it])
         else validate_items v items validated_items)"

definition near :: "detection \<Rightarrow> detection \<Rightarrow> bool" where
  "near it other =
    (\<bar>d_start it - d_end other\<bar> \<le> 5 \<or> \<bar>d_end it - d_start other\<bar> \<le> 5)"

fun add_to_groups :: "detection \<Rightarrow> detection list list \<Rightarrow> detection list list" where
  "add_to_groups it [] = [[it]]"
| "add_to_groups it (grp # name_groups) =
    (if list_ex (near it) grp then (grp @ [it]) # name_groups
     else grp # add_to_groups it name_groups)"

text \<open>
  A group of several fragments is validated as one merged name and kept whatever the
  answer; a single fragment is kept when accepted, or when rejected next to a name already
  kept. The sort inside the join has a constant key, so it keeps the order.
\<close>

fun validate_groups ::
  "(detection \<Rightarrow> error + (pyval \<times> pyval)) \<Rightarrow> detection list list \<Rightarrow> detection list
    \<Rightarrow> error + detection list" where
  "validate_groups v [] validated_items = Inr validated_items"
| "validate_groups v ([] # name_groups) validated_items = Inl IndexError"
| "validate_groups v ([it] # name_groups) validated_items =
    (case v it of
       Inl e \<Rightarrow> Inl e
     | Inr (is_valid, reasoning) \<Rightarrow>
         if truthy is_valid then validate_groups v name_groups (validated_items @ [it])
         else if list_ex (near it) validated_items
           then validate_groups v name_groups (validated_items @ [it])
           else validate_groups v name_groups validated_items)"
| "validate_groups v ((g # g' # gs) # name_groups) validated_items =
    (let merged_name =
           \<lparr>d_type = ''name'',
            d_value = join '' '' (map d_value (g # g' # gs)),
            d_start = fold min (map d_start (g' # gs)) (d_start g),
            d_end = fold max (map d_end (g' # gs)) (d_end g)\<rparr>
     in case v merged_name of
          Inl e \<Rightarrow> Inl e
        | Inr (is_valid, reasoning) \<Rightarrow>
            validate_groups v name_groups (validated_items @ [merged_name]))"

fun validate_results :: "gemini \<Rightarrow> string \<Rightarrow> detections \<Rightarrow> error + detections" where
  "validate_results orc text [] = Inr []"
| "validate_results orc text ((pii_type, items) # results) =
    (case (if pii_type = ''names''
           then validate_groups (validate_item orc text pii_type)
                  (fold add_to_groups (sort_key d_start items) []) []
           else validate_items (validate_item orc text pii_type) items []) of
       Inl e \<Rightarrow> Inl e
     | Inr validated_items \<Rightarrow>
         (case validate_results orc text results of
            Inl e \<Rightarrow> Inl e
          | Inr validated_results \<Rightarrow> Inr ((pii_type, validated_items) # validated_results)))"

text \<open>Step 4: discovery. An entry without usable offsets is searched for in the text.\<close>

fun check_discovered :: "string \<Rightarrow> raw_detection list \<Rightarrow> detection list \<Rightarrow> detection list" where
  "check_discovered text [] validated = validated"
| "check_discovered text (det # new_detections) validated =
    (let v = (case r_value det of None \<Rightarrow> [] | Some s \<Rightarrow> s);
         start = (case r_start det of None \<Rightarrow> - 1 | Some i \<Rightarrow> i);
         end_pos = (case r_end det of None \<Rightarrow> - 1 | Some i \<Rightarrow> i);
         t = (case r_type det of None \<Rightarrow> ''other'' | Some s \<Rightarrow> s)
     in if start = - 1 \<or> end_pos = - 1 then
          (let pos = py_find text v in
           if pos \<noteq> - 1 then
             check_discovered text new_detections
               (validated @ [\<lparr>d_type = t, d_value = v, d_start = pos, d_end = pos + int (length v)\<rparr>])
           else check_discovered text new_detections validated)
        else check_discovered text new_detections
               (validated @ [\<lparr>d_type = t, d_value = v, d_start = start, d_end = end_pos\<rparr>]))"

definition summary :: "string \<Rightarrow> detections \<Rightarrow> string list" where
  "summary word dets =
     map (\<lambda>(pii_type, items). pii_type @ '': '' @ str_int (int (length items)) @ '' '' @ word)
         (filter (\<lambda>(pii_type, items). items \<noteq> []) dets)"

definition discover_pii :: "gemini \<Rightarrow> string \<Rightarrow> detections \<Rightarrow> error + detection list" where
  "discover_pii orc text existing_detections =
    (case discover_reply orc (take 2000 text) (summary ''found'' existing_detections) of
       Inl error_msg \<Rightarrow> Inl (oracle_error error_msg)
     | Inr None \<Rightarrow> Inr []
     | Inr (Some new_detections) \<Rightarrow> Inr (check_discovered text new_detections []))"

definition type_mapping :: "(string \<times> string) list" where
  "type_mapping =
    [(''email'', ''emails''),
     (''phone'', ''phones''),
     (''name'', ''names''),
     (''address'', ''addresses''),
     (''ssn'', ''ssn''),
     (''credit_card'', ''credit_cards''),
     (''username'', ''names'')]"

text \<open>\<^verbatim>\<open>s.rstrip('s')\<close>.\<close>

definition rstrip_s :: "string \<Rightarrow> string" where
  "rstrip_s s = rev (dropWhile (\<lambda>c. c = CHR ''s'') (rev s))"

definition add_discovery :: "detection \<Rightarrow> detections \<Rightarrow> detections" where
  "add_discovery new_det validated_results =
    (let mapped_type = dict_get (map_of type_mapping) (d_type new_det) ''names'';
         results = (if mapped_type \<notin> set (map fst validated_results)
                    then validated_results @ [(mapped_type, [])] else validated_results);
         is_duplicate =
           list_ex (\<lambda>existing. d_start existing = d_start new_det \<and> d_end existing = d_end new_det)
             (dict_get (map_of results) mapped_type [])
     in if \<not> is_duplicate then
          map (\<lambda>(pii_type, items).
                 if pii_type = mapped_type
                 then (pii_type,
                       items @ [\<lparr>d_type = rstrip_s mapped_type, d_value = d_value new_det,
                                 d_start = d_start new_det, d_end = d_end new_det\<rparr>])
                 else (pii_type, items))
              results
        else results)"

definition explain_redaction :: "gemini \<Rightarrow> string \<Rightarrow> detections \<Rightarrow> error + string" where
  "explain_redaction orc text dets =
    (case explain_reply orc (summary ''detected'' dets) of
       Inl error_msg \<Rightarrow> Inl (oracle_error error_msg)
     | Inr response_text \<Rightarrow> Inr (strip response_text))"

definition detect_all :: "scans \<Rightarrow> gemini \<Rightarrow> string \<Rightarrow> settings \<Rightarrow> error + detections \<times> string" where
  "detect_all sc orc text settings =
    (let names = detect_names (doc_ents sc) settings;
         usernames = detect_usernames text (username_matches sc) settings;
         name_positions = set (map (\<lambda>n. (d_start n, d_end n)) names);
         names = add_usernames name_positions usernames names;
         results =
           [(''emails'', detect_emails (email_matches sc) settings),
            (''phones'', detect_phones (phone_matches sc) settings),
            (''names'', names),
            (''addresses'', detect_addresses (address_matches sc) settings),
            (''ssn'', detect_ssn (ssn_matches sc) settings),
            (''credit_cards'', detect_credit_cards (credit_card_matches sc) settings)]
     in case validate_results orc text results of
          Inl e \<Rightarrow> Inl e
        | Inr validated_results \<Rightarrow>
           (case discover_pii orc text validated_results of
              Inl e \<Rightarrow> Inl e
            | Inr new_detections \<Rightarrow>
               (let results = fold add_discovery new_detections validated_results in
                case explain_redaction orc text results of
                  Inl e \<Rightarrow> Inl e
                | Inr explanation \<Rightarrow> Inr (results, explanation))))"

section \<open>The text endpoint of \<^verbatim>\<open>main.py\<close>\<close>

record response =
  out_original :: string
  out_redacted :: string
  out_statistics :: "(string \<times> nat) list"
  out_detections :: detections
  out_explanation :: string

text \<open>RuntimeError is answered with status 503, any other exception with 500.\<close>

fun http_status :: "error \<Rightarrow> nat" where
  "http_status QuotaExceeded = 503"
| "http_status OracleFailed = 503"
| "http_status TypeError = 500"
| "http_status IndexError = 500"

definition redact_text_endpoint ::
  "scans \<Rightarrow> gemini \<Rightarrow> string \<Rightarrow> settings \<Rightarrow> nat + response" where
  "redact_text_endpoint sc orc text settings =
    (case detect_all sc orc text settings of
       Inl e \<Rightarrow> Inl (http_status e)
     | Inr (detection_results, explanation) \<Rightarrow>
        (case redact_text text detection_results settings of
           Inl e \<Rightarrow> Inl (http_status e)
         | Inr redacted_text \<Rightarrow>
            Inr \<lparr>out_original = text,
                 out_redacted = redacted_text,
                 out_statistics =
                   map (\<lambda>k. (k, length (dict_get (map_of detection_results) k [])))
                     [''emails'', ''phones'', ''names'', ''addresses'', ''ssn'', ''credit_cards''],
                 out_detections = detection_results,
                 out_explanation = explanation\<rparr>))"

section \<open>Example documents\<close>

definition ex_text :: string where
  "ex_text = ''Contact Emily Johnson at emily.j@example.com''"

definition ex_name :: detection where
  "ex_name = \<lparr>d_type = ''name'', d_value = ''Emily Johnson'', d_start = 8, d_end = 21\<rparr>"

definition ex_email :: detection where
  "ex_email = \<lparr>d_type = ''email'', d_value = ''emily.j@example.com'', d_start = 25, d_end = 44\<rparr>"

definition ex_dets :: detections where
  "ex_dets = [(''emails'', [ex_email]), (''names'', [ex_name])]"

text \<open>A span whose stored value is not what the text holds at its offsets.\<close>

definition stale_email :: detection where
  "stale_email = \<lparr>d_type = ''email'', d_value = ''bob@example.com'', d_start = 25, d_end = 44\<rparr>"

definition stale_dets :: detections where
  "stale_dets = [(''emails'', [stale_email]), (''names'', [ex_name])]"

text \<open>An address that contains a shorter candidate, and three candidates in a chain.\<close>

definition ex_address :: detection where
  "ex_address = \<lparr>d_type = ''address'', d_value = ''123 Main St, Springfield, IL 62704'',
                  d_start = 0, d_end = 34\<rparr>"

definition ex_zip :: detection where
  "ex_zip = \<lparr>d_type = ''ssn'', d_value = ''62704'', d_start = 29, d_end = 34\<rparr>"

definition address_dets :: detections where
  "address_dets = [(''addresses'', [ex_address]), (''ssn'', [ex_zip])]"

definition chain_a :: detection where
  "chain_a = \<lparr>d_type = ''address'', d_value = ''123 Main St, Springfield, IL 62704'',
               d_start = 0, d_end = 34\<rparr>"

definition chain_b :: detection where
  "chain_b = \<lparr>d_type = ''phone'', d_value = ''62704 555 0100'', d_start = 29, d_end = 43\<rparr>"

definition chain_c :: detection where
  "chain_c = \<lparr>d_type = ''name'', d_value = ''0100 Ann'', d_start = 39, d_end = 47\<rparr>"

definition chain_dets :: detections where
  "chain_dets = [(''addresses'', [chain_a]), (''phones'', [chain_b]), (''names'', [chain_c])]"

text \<open>Two spans of one category, listed in position order and against it.\<close>

definition ssn_10 :: detection where
  "ssn_10 = \<lparr>d_type = ''ssn'', d_value = ''987-65-4321'', d_start = 10, d_end = 21\<rparr>"

definition ssn_50 :: detection where
  "ssn_50 = \<lparr>d_type = ''ssn'', d_value = ''123-45-6789'', d_start = 50, d_end = 61\<rparr>"

text \<open>The person entities of the example sentence, as the recogniser reports them.\<close>

definition emily_ents :: "entity list" where
  "emily_ents =
     [\<lparr>ent_label = ''PERSON'', ent_text = ''Emily'', start_char = 8, end_char = 13\<rparr>,
      \<lparr>ent_label = ''PERSON'', ent_text = ''Johnson'', start_char = 14, end_char = 21\<rparr>]"

text \<open>
  Oracles that answer in prose, on which \<^verbatim>\<open>json.loads\<close> raises JSONDecodeError: one doubts
  every candidate, one accepts it. The third also reports an email address in its
  discovery step. The last one answers with a thousand opening brackets, on which the
  parser raises RecursionError.
\<close>

definition vague_oracle :: gemini where
  "vague_oracle =
     \<lparr>validate_reply = (\<lambda>context candidate pii_type. Inr ''Probably a false positive.''),
      json_loads = (\<lambda>s. JSONDecodeError),
      discover_reply = (\<lambda>text existing. Inr (Some [])),
      explain_reply = (\<lambda>summary. Inr ''Nothing to report.'')\<rparr>"

definition plain_oracle :: gemini where
  "plain_oracle =
     \<lparr>validate_reply = (\<lambda>context candidate pii_type. Inr ''Yes, this is PII.''),
      json_loads = (\<lambda>s. JSONDecodeError),
      discover_reply = (\<lambda>text existing. Inr (Some [])),
      explain_reply = (\<lambda>summary. Inr ''Redacted one email address.'')\<rparr>"

definition discovering_oracle :: gemini where
  "discovering_oracle =
     \<lparr>validate_reply = (\<lambda>context candidate pii_type. Inr ''Yes, this is PII.''),
      json_loads = (\<lambda>s. JSONDecodeError),
      discover_reply = (\<lambda>text existing.
         Inr (Some [\<lparr>r_type = Some ''email'', r_value = Some ''bob@example.com'',
                     r_start = Some 5, r_end = Some 20\<rparr>])),
      explain_reply = (\<lambda>summary. Inr ''Found one email address.'')\<rparr>"

definition nesting_oracle :: gemini where
  "nesting_oracle =
     \<lparr>validate_reply = (\<lambda>context candidate pii_type. Inr (replicate 1000 (CHR ''[''))),
      json_loads = (\<lambda>s. if s = replicate 1000 (CHR ''['')
                         then Raised ''maximum recursion depth exceeded while decoding a JSON array from a unicode string''
                         else JSONDecodeError),
      discover_reply = (\<lambda>text existing. Inr (Some [])),
      explain_reply = (\<lambda>summary. Inr ''Nothing to report.'')\<rparr>"

definition mail_text :: string where
  "mail_text = ''mail bob@example.com''"

definition mail_email :: detection where
  "mail_email = \<lparr>d_type = ''email'', d_value = ''bob@example.com'', d_start = 5, d_end = 20\<rparr>"

definition mail_scans :: scans where
  "mail_scans =
     \<lparr>email_matches = [\<lparr>m_group = ''bob@example.com'', m_start = 5, m_end = 20\<rparr>],
      phone_matches = [[], [], [], []],
      ssn_matches = [],
      credit_card_matches = [],
      address_matches = [[], []],
      doc_ents = Some [],
      username_matches = []\<rparr>"

section \<open>Properties of label assignment\<close>

lemma map_of_type_labels_None:
  "pii_type \<notin> set [''email'', ''phone'', ''name'', ''address'', ''ssn'', ''credit_card'']
    \<Longrightarrow> map_of type_labels pii_type = None"
  by (simp add: type_labels_def)

text \<open>
  Claim C10. With a style that is neither \<^verbatim>\<open>black_boxes\<close> nor \<^verbatim>\<open>custom\<close> (the indexed
  style, the default), every category string outside the six singular keys of
  \<open>type_labels\<close> gets the display name REDACTED, so the label is \<^verbatim>\<open>[REDACTED_n]\<close> with
  \<open>n = index + 1\<close>; the plural keys under which \<open>redact_text\<close> finds its detections
  (\<^verbatim>\<open>emails\<close>, \<^verbatim>\<open>phones\<close>, \<^verbatim>\<open>names\<close>, \<^verbatim>\<open>addresses\<close>, \<^verbatim>\<open>credit_cards\<close>) are among them.
\<close>

theorem get_redaction_label_unrecognized:
  assumes "settings ''redaction_style'' \<noteq> Some (PStr ''black_boxes'')"
    and "settings ''redaction_style'' \<noteq> Some (PStr ''custom'')"
  shows "(pii_type \<notin> set [''email'', ''phone'', ''name'', ''address'', ''ssn'', ''credit_card'']
          \<longrightarrow> get_redaction_label pii_type index settings
                = PStr (''[REDACTED_'' @ str_int (index + 1) @ '']''))
       \<and> (pii_type \<in> set [''emails'', ''phones'', ''names'', ''addresses'', ''credit_cards'']
          \<longrightarrow> get_redaction_label pii_type index settings
                = PStr (''[REDACTED_'' @ str_int (index + 1) @ '']''))"
proof -
  have style: "dict_get settings ''redaction_style'' (PStr ''labels'') \<noteq> PStr ''black_boxes''"
       "dict_get settings ''redaction_style'' (PStr ''labels'') \<noteq> PStr ''custom''"
    using assms by (auto simp: dict_get_def split: option.splits)
  have fallback: "get_redaction_label pii_type index settings
                = PStr (''[REDACTED_'' @ str_int (index + 1) @ '']'')"
    if "map_of type_labels pii_type = None"
    using that style by (simp add: get_redaction_label_def Let_def dict_get_def)
  have plural: "map_of type_labels pii_type = None"
    if "pii_type \<in> set [''emails'', ''phones'', ''names'', ''addresses'', ''credit_cards'']"
    using that by (auto simp: type_labels_def)
  show ?thesis
  proof (intro conjI impI)
    assume "pii_type \<notin> set [''email'', ''phone'', ''name'', ''address'', ''ssn'', ''credit_card'']"
    then show "get_redaction_label pii_type index settings
                = PStr (''[REDACTED_'' @ str_int (index + 1) @ '']'')"
      by (rule fallback [OF map_of_type_labels_None])
  next
    assume "pii_type \<in> set [''emails'', ''phones'', ''names'', ''addresses'', ''credit_cards'']"
    then show "get_redaction_label pii_type index settings
                = PStr (''[REDACTED_'' @ str_int (index + 1) @ '']'')"
      by (rule fallback [OF plural])
  qed
qed

theorem get_redaction_label_unrecognized_witness:
  "get_redaction_label ''phones'' 0 Map.empty = PStr ''[REDACTED_1]''
   \<and> get_redaction_label ''other'' 41 [''redaction_style'' \<mapsto> PStr ''labels''] = PStr ''[REDACTED_42]''"
  using get_redaction_label_unrecognized [of Map.empty "''phones''" 0]
        get_redaction_label_unrecognized [of "[''redaction_style'' \<mapsto> PStr ''labels'']" "''other''" 41]
  by (simp add: str_int_def str_nat.simps digit_char_def)

section \<open>Properties of overlap resolution\<close>

lemma overlaps_sym: "overlaps a b = overlaps b a"
  by (auto simp: overlaps_def)

lemma sorted_wrt_insort_key_sym:
  assumes "\<And>a b. P a b \<Longrightarrow> P b a"
  shows "sorted_wrt P (insort_key f x xs) \<longleftrightarrow> (\<forall>y\<in>set xs. P x y) \<and> sorted_wrt P xs"
  using assms by (induction xs) (auto simp: set_insort_key)

lemma sorted_wrt_sort_key_sym:
  assumes "\<And>a b. P a b \<Longrightarrow> P b a"
  shows "sorted_wrt P (sort_key f xs) \<longleftrightarrow> sorted_wrt P xs"
  using assms by (induction xs) (simp_all add: sorted_wrt_insort_key_sym)

lemma remove_overlaps_append:
  "remove_overlaps (xs @ ys) kept = remove_overlaps ys (remove_overlaps xs kept)"
  by (induction xs arbitrary: kept) simp_all

lemma remove_overlaps_prefix:
  "\<exists>more. remove_overlaps xs kept = kept @ more \<and> set more \<subseteq> set xs"
proof (induction xs arbitrary: kept)
  case Nil
  then show ?case by simp
next
  case (Cons x xs)
  show ?case
  proof (cases "list_ex (overlaps x) kept")
    case True
    with Cons.IH [of kept] show ?thesis by auto
  next
    case False
    from Cons.IH [of "kept @ [x]"] obtain more
      where "remove_overlaps xs (kept @ [x]) = (kept @ [x]) @ more" "set more \<subseteq> set xs"
      by blast
    with False show ?thesis by (intro exI [of _ "x # more"]) auto
  qed
qed

lemma set_remove_overlaps: "set (remove_overlaps xs kept) \<subseteq> set kept \<union> set xs"
  using remove_overlaps_prefix [of xs kept] by auto

lemma kept_remove_overlaps: "set kept \<subseteq> set (remove_overlaps xs kept)"
  using remove_overlaps_prefix [of xs kept] by auto

lemma remove_overlaps_disjoint:
  "sorted_wrt (\<lambda>a b. \<not> overlaps a b) kept
    \<Longrightarrow> sorted_wrt (\<lambda>a b. \<not> overlaps a b) (remove_overlaps xs kept)"
proof (induction xs arbitrary: kept)
  case Nil
  then show ?case by simp
next
  case (Cons x xs)
  show ?case
  proof (cases "list_ex (overlaps x) kept")
    case True
    with Cons show ?thesis by simp
  next
    case False
    then have "\<forall>k\<in>set kept. \<not> overlaps k x"
      by (auto simp: list_ex_iff overlaps_sym)
    with Cons.prems have "sorted_wrt (\<lambda>a b. \<not> overlaps a b) (kept @ [x])"
      by (simp add: sorted_wrt_append)
    from Cons.IH [OF this] False show ?thesis by simp
  qed
qed

lemma redaction_plan_disjoint:
  "sorted_wrt (\<lambda>a b. \<not> overlaps a b) (redaction_plan settings dets)"
  unfolding redaction_plan_def
  by (simp add: sorted_wrt_sort_key_sym overlaps_sym remove_overlaps_disjoint)

lemma redaction_plan_subset:
  "set (redaction_plan settings dets) \<subseteq> set (label_detections settings dets)"
proof -
  have "set (remove_overlaps (sort_key size_key (label_detections settings dets)) [])
        \<subseteq> set [] \<union> set (sort_key size_key (label_detections settings dets))"
    by (rule set_remove_overlaps)
  then show ?thesis by (simp add: redaction_plan_def)
qed

lemma sorted_wrt_nth_neq:
  assumes "sorted_wrt P xs" "\<And>a b. P a b \<Longrightarrow> P b a" "i < length xs" "j < length xs" "i \<noteq> j"
  shows "P (xs ! i) (xs ! j)"
proof (cases "i < j")
  case True
  with assms show ?thesis by (simp add: sorted_wrt_nth_less)
next
  case False
  with assms have "j < i" by simp
  with assms have "P (xs ! j) (xs ! i)" by (simp add: sorted_wrt_nth_less)
  with assms(2) show ?thesis by blast
qed

lemma remove_overlaps_keeps:
  assumes "\<forall>k\<in>set kept \<union> set pre. \<not> overlaps a k"
  shows "a \<in> set (remove_overlaps (pre @ a # post) kept)"
proof -
  let ?K = "remove_overlaps pre kept"
  have "set ?K \<subseteq> set kept \<union> set pre" by (rule set_remove_overlaps)
  with assms have "\<not> list_ex (overlaps a) ?K"
    by (auto simp: list_ex_iff)
  then have "remove_overlaps (pre @ a # post) kept = remove_overlaps post (?K @ [a])"
    by (simp add: remove_overlaps_append)
  moreover have "a \<in> set (remove_overlaps post (?K @ [a]))"
    using kept_remove_overlaps [of "?K @ [a]" post] by auto
  ultimately show ?thesis by simp
qed

lemma sort_key_split_first:
  assumes "a \<in> set xs"
  shows "\<exists>pre post. sort_key f xs = pre @ a # post \<and> a \<notin> set pre \<and> (\<forall>y\<in>set pre. f y \<le> f a)
          \<and> set pre \<subseteq> set xs"
proof -
  from assms have "a \<in> set (sort_key f xs)" by simp
  then obtain pre post where sp: "sort_key f xs = pre @ a # post" "a \<notin> set pre"
    by (meson split_list_first)
  have "sorted (map f (sort_key f xs))" by (rule sorted_sort_key)
  with sp have "\<forall>y\<in>set pre. f y \<le> f a"
    by (auto simp: sorted_append)
  moreover have "set pre \<subseteq> set xs"
    using sp(1) set_sort [of f xs] by (metis Un_upper1 set_append subset_trans subset_refl)
  ultimately show ?thesis using sp by blast
qed

lemma not_both_in_plan:
  assumes "a \<in> set (redaction_plan settings dets)" "b \<in> set (redaction_plan settings dets)"
    and "overlaps a b" "a \<noteq> b"
  shows False
proof -
  from assms(1) obtain i where
    i: "i < length (redaction_plan settings dets)" "redaction_plan settings dets ! i = a"
    by (auto simp: in_set_conv_nth)
  from assms(2) obtain j where
    j: "j < length (redaction_plan settings dets)" "redaction_plan settings dets ! j = b"
    by (auto simp: in_set_conv_nth)
  from i j assms(4) have "i \<noteq> j" by auto
  from sorted_wrt_nth_neq [OF redaction_plan_disjoint _ i(1) j(1) this] i j
  have "\<not> overlaps a b" by (simp add: overlaps_sym)
  with assms(3) show False by simp
qed

lemma ahead_in_plan:
  assumes "a \<in> set (label_detections settings dets)"
    and "\<forall>c\<in>set (label_detections settings dets).
           c \<noteq> a \<and> overlaps a c \<longrightarrow> size_key a < size_key c"
  shows "a \<in> set (redaction_plan settings dets)"
proof -
  from sort_key_split_first [OF assms(1), of size_key] obtain pre post where
    sp: "sort_key size_key (label_detections settings dets) = pre @ a # post"
        "a \<notin> set pre" "\<forall>y\<in>set pre. size_key y \<le> size_key a"
        "set pre \<subseteq> set (label_detections settings dets)"
    by blast
  have "\<forall>k\<in>set [] \<union> set pre. \<not> overlaps a k"
  proof
    fix k assume "k \<in> set [] \<union> set pre"
    then have k: "k \<in> set pre" by simp
    with sp have "k \<noteq> a" "size_key k \<le> size_key a" "k \<in> set (label_detections settings dets)"
      by auto
    with assms(2) show "\<not> overlaps a k" by (meson not_le)
  qed
  from remove_overlaps_keeps [OF this, of post] sp(1)
  show ?thesis by (simp add: redaction_plan_def)
qed

lemma sweep_order:
  assumes "i < j" "j < length (sort_key size_key xs)"
  shows "(let a = item (sort_key size_key xs ! i); b = item (sort_key size_key xs ! j)
          in d_end a - d_start a > d_end b - d_start b
             \<or> (d_end a - d_start a = d_end b - d_start b \<and> d_start a \<le> d_start b))"
proof -
  have "sorted (map size_key (sort_key size_key xs))" by (rule sorted_sort_key)
  with assms have "size_key (sort_key size_key xs ! i) \<le> size_key (sort_key size_key xs ! j)"
    by (simp add: sorted_iff_nth_mono)
  then show ?thesis
    by (auto simp: size_key_def Let_def less_eq_prod_def)
qed

lemma overlaps_shares_position:
  assumes "d_start (item a) < d_end (item a)" "d_start (item b) < d_end (item b)"
  shows "overlaps a b \<longleftrightarrow>
     (\<exists>p. d_start (item a) \<le> p \<and> p < d_end (item a) \<and> d_start (item b) \<le> p \<and> p < d_end (item b))"
proof
  assume "overlaps a b"
  then have "d_start (item b) < d_end (item a)" "d_start (item a) < d_end (item b)"
    by (auto simp: overlaps_def)
  with assms show "\<exists>p. d_start (item a) \<le> p \<and> p < d_end (item a)
                      \<and> d_start (item b) \<le> p \<and> p < d_end (item b)"
    by (intro exI [of _ "max (d_start (item a)) (d_start (item b))"]) auto
next
  assume "\<exists>p. d_start (item a) \<le> p \<and> p < d_end (item a) \<and> d_start (item b) \<le> p \<and> p < d_end (item b)"
  then show "overlaps a b" by (auto simp: overlaps_def)
qed

section \<open>Properties of the rewriting loop\<close>

lemma rewrite_applied: "rewrite text plan w = rewrite text (applied text plan) w"
  by (induction plan arbitrary: w) (simp_all add: applied_def split: pyval.splits)

lemma replace_from_snoc:
  assumes "\<forall>(s', e', l')\<in>set A. s' \<le> e' \<and> e' \<le> s"
  shows "replace_from pos T (A @ [(s, e, l)]) = replace_from pos (take s T) A @ l @ drop e T"
  using assms
proof (induction A arbitrary: pos)
  case Nil
  show ?case by (simp add: drop_take)
next
  case (Cons x A)
  obtain s' e' l' where x: "x = (s', e', l')" by (cases x)
  with Cons.prems have le: "s' \<le> s" by auto
  have "take (s' - pos) (drop pos (take s T)) = take (s' - pos) (drop pos T)"
    using le by (simp add: drop_take min_def)
  with Cons x show ?case by simp
qed

lemma desc_disjoint_before:
  assumes "in_range text d" "in_range text d'" "\<not> overlaps d d'"
    and "d_start (item d') \<le> d_start (item d)"
  shows "d_end (item d') \<le> d_start (item d)"
  using assms by (auto simp: in_range_def overlaps_def)

lemma rewrite_splice:
  assumes "\<forall>d\<in>set D. in_range text d \<and> value_matches text d \<and> is_str (redaction_label d)"
    and "sorted_wrt (\<lambda>a b. d_start (item b) \<le> d_start (item a)) D"
    and "sorted_wrt (\<lambda>a b. \<not> overlaps a b) D"
    and "\<forall>d\<in>set D. d_end (item d) \<le> int m"
    and "m \<le> length text"
  shows "rewrite text D (take m text @ R)
          = Inr (replace_from 0 (take m text) (map span_of (rev D)) @ R)"
  using assms
proof (induction D arbitrary: m R)
  case Nil
  then show ?case by simp
next
  case (Cons d D)
  let ?s = "nat (d_start (item d))" and ?e = "nat (d_end (item d))"
  from Cons.prems(1) have d: "in_range text d" "value_matches text d" "is_str (redaction_label d)"
    by auto
  then obtain l where l: "redaction_label d = PStr l"
    by (auto simp: is_str_def split: pyval.splits)
  from d(1) Cons.prems(4,5) have bounds: "0 \<le> d_start (item d)" "d_start (item d) < d_end (item d)"
      "d_end (item d) \<le> int m" "?s < ?e" "?e \<le> m" "m \<le> length text" "?s \<le> m"
    by (auto simp: in_range_def)
  let ?w = "take m text @ R"
  have pre: "py_prefix ?w (d_start (item d)) = take ?s text"
    using bounds by (simp add: py_prefix_def slice_bound_def min_def)
  have suf: "py_suffix ?w (d_end (item d)) = drop ?e (take m text) @ R"
    using bounds by (simp add: py_suffix_def slice_bound_def min_def)
  let ?R' = "l @ drop ?e (take m text) @ R"
  have step: "rewrite text (d # D) ?w = rewrite text D (take ?s text @ ?R')"
    using d l pre suf by simp
  have ends: "\<forall>d'\<in>set D. d_end (item d') \<le> int ?s"
  proof
    fix d' assume d': "d' \<in> set D"
    with Cons.prems(1,2,3) have "in_range text d'" "\<not> overlaps d d'"
      "d_start (item d') \<le> d_start (item d)"
      by auto
    from desc_disjoint_before [OF d(1) this] bounds show "d_end (item d') \<le> int ?s" by simp
  qed
  have "?s \<le> length text" using bounds by simp
  from Cons.IH [OF _ _ _ ends this, of ?R'] Cons.prems(1,2,3)
  have IH: "rewrite text D (take ?s text @ ?R')
          = Inr (replace_from 0 (take ?s text) (map span_of (rev D)) @ ?R')"
    by simp
  have sn: "\<forall>(s', e', l')\<in>set (map span_of (rev D)). s' \<le> e' \<and> e' \<le> ?s"
  proof -
    have "s' \<le> e' \<and> e' \<le> ?s" if "d' \<in> set D" "span_of d' = (s', e', l')" for d' s' e' l'
    proof -
      from that(1) Cons.prems(1) have "in_range text d'" by auto
      moreover from ends that(1) bounds have "d_end (item d') \<le> d_start (item d)" by auto
      ultimately show ?thesis using that(2) by (auto simp: span_of_def in_range_def)
    qed
    then show ?thesis by auto
  qed
  have "replace_from 0 (take m text) (map span_of (rev (d # D)))
        = replace_from 0 (take m text) (map span_of (rev D) @ [(?s, ?e, l)])"
    using l by (simp add: span_of_def label_str_def)
  also have "\<dots> = replace_from 0 (take ?s (take m text)) (map span_of (rev D)) @ l
                    @ drop ?e (take m text)"
    by (rule replace_from_snoc [OF sn])
  also have "take ?s (take m text) = take ?s text"
    using bounds by (simp add: min_def)
  finally show ?case using step IH by simp
qed

lemma rewrite_type_error:
  assumes "\<exists>d\<in>set D. in_range text d \<and> value_matches text d \<and> \<not> is_str (redaction_label d)"
  shows "rewrite text D w = Inl TypeError"
  using assms
proof (induction D arbitrary: w)
  case Nil
  then show ?case by simp
next
  case (Cons d D)
  show ?case
  proof (cases "in_range text d \<and> value_matches text d")
    case True
    show ?thesis
    proof (cases "is_str (redaction_label d)")
      case True
      with Cons.prems have "\<exists>d\<in>set D. in_range text d \<and> value_matches text d
                                      \<and> \<not> is_str (redaction_label d)"
        by auto
      from Cons.IH [OF this] show ?thesis
        by (simp split: pyval.splits)
    next
      case False
      with True show ?thesis by (simp add: is_str_def split: pyval.splits)
    qed
  next
    case False
    with Cons.prems have "\<exists>d\<in>set D. in_range text d \<and> value_matches text d
                                    \<and> \<not> is_str (redaction_label d)"
      by auto
    from Cons.IH [OF this] False show ?thesis by auto
  qed
qed

lemma redaction_plan_desc:
  "sorted_wrt (\<lambda>a b. d_start (item b) \<le> d_start (item a)) (redaction_plan settings dets)"
proof -
  have "sorted (map (\<lambda>x. - d_start (item x)) (redaction_plan settings dets))"
    unfolding redaction_plan_def by (rule sorted_sort_key)
  then show ?thesis by (simp add: sorted_map)
qed

lemma redaction_plan_empty:
  "label_detections settings dets = [] \<Longrightarrow> redaction_plan settings dets = []"
  by (simp add: redaction_plan_def)

lemma redact_text_rewrite:
  "redact_text text dets settings = rewrite text (redaction_plan settings dets) text"
  by (simp add: redact_text_def redaction_plan_empty)

lemma applied_desc:
  "sorted_wrt (\<lambda>a b. d_start (item b) \<le> d_start (item a))
     (applied text (redaction_plan settings dets))"
  unfolding applied_def by (rule sorted_wrt_filter [OF redaction_plan_desc])

lemma applied_disjoint:
  "sorted_wrt (\<lambda>a b. \<not> overlaps a b) (applied text (redaction_plan settings dets))"
  unfolding applied_def by (rule sorted_wrt_filter [OF redaction_plan_disjoint])

lemma redact_text_eq:
  "redact_text text dets settings =
    (if \<forall>d\<in>set (applied text (redaction_plan settings dets)). is_str (redaction_label d)
     then Inr (replace_spans text (map span_of (rev (applied text (redaction_plan settings dets)))))
     else Inl TypeError)"
proof (cases "\<forall>d\<in>set (applied text (redaction_plan settings dets)). is_str (redaction_label d)")
  case True
  let ?D = "applied text (redaction_plan settings dets)"
  have 1: "\<forall>d\<in>set ?D. in_range text d \<and> value_matches text d \<and> is_str (redaction_label d)"
    using True by (auto simp: applied_def)
  have 4: "\<forall>d\<in>set ?D. d_end (item d) \<le> int (length text)"
    using 1 by (auto simp: in_range_def)
  from rewrite_splice [OF 1 applied_desc applied_disjoint 4, of "[]"]
  have "rewrite text ?D text = Inr (replace_from 0 text (map span_of (rev ?D)))"
    by simp
  with True show ?thesis
    by (simp add: redact_text_rewrite rewrite_applied [of "text" "redaction_plan settings dets"]
        replace_spans_def)
next
  case False
  then have "\<exists>d\<in>set (redaction_plan settings dets).
      in_range text d \<and> value_matches text d \<and> \<not> is_str (redaction_label d)"
    by (auto simp: applied_def)
  from rewrite_type_error [OF this] False show ?thesis
    by (simp add: redact_text_rewrite)
qed

subsection \<open>Where each untouched character ends up\<close>

lemma shift3_Nil [simp]: "shift3 [] p = 0"
  by (simp add: shift3_def)

lemma shift3_Cons:
  "shift3 ((s, e, l) # A) p = (if e \<le> p then int (length l) - (int e - int s) else 0) + shift3 A p"
  by (simp add: shift3_def)

lemma shift3_before:
  assumes "\<forall>(s, e, l)\<in>set A. p < e"
  shows "shift3 A p = 0"
proof -
  have "filter (\<lambda>(s, e, l). e \<le> p) A = []"
    using assms by (auto simp: filter_empty_conv)
  then show ?thesis by (simp add: shift3_def)
qed

lemma replace_from_nth:
  assumes "sorted_wrt (\<lambda>a b. fst (snd a) \<le> fst b) A"
    and "\<forall>(s, e, l)\<in>set A. pos \<le> s \<and> s < e \<and> e \<le> length T"
    and "pos \<le> p" and "p < length T"
    and "\<forall>(s, e, l)\<in>set A. \<not> (s \<le> p \<and> p < e)"
  shows "0 \<le> int (p - pos) + shift3 A p
       \<and> nat (int (p - pos) + shift3 A p) < length (replace_from pos T A)
       \<and> replace_from pos T A ! nat (int (p - pos) + shift3 A p) = T ! p"
  using assms
proof (induction A arbitrary: pos)
  case Nil
  then show ?case by (simp del: of_nat_diff)
next
  case (Cons x A)
  obtain s e l where x: "x = (s, e, l)" by (cases x)
  from Cons.prems(2) x have se: "pos \<le> s" "s < e" "e \<le> length T" by auto
  from Cons.prems(5) x have out: "p < s \<or> e \<le> p" by auto
  show ?case
  proof (cases "p < s")
    case True
    have "\<forall>(s', e', l')\<in>set (x # A). p < e'"
    proof -
      have "p < e'" if "(s', e', l') \<in> set A" for s' e' l'
      proof -
        from that Cons.prems(1) x have "e \<le> s'" by auto
        moreover from that Cons.prems(2) have "s' < e'" by auto
        ultimately show ?thesis using True se by simp
      qed
      with True se x show ?thesis by auto
    qed
    then have sh: "shift3 (x # A) p = 0" by (rule shift3_before)
    have len: "length (take (s - pos) (drop pos T)) = s - pos"
      using se by simp
    have lt0: "p - pos < s - pos"
      using True Cons.prems(3) by arith
    have lt: "p - pos < length (replace_from pos T (x # A))"
      using x len lt0 by simp
    have "replace_from pos T (x # A) ! (p - pos) = take (s - pos) (drop pos T) ! (p - pos)"
      using x len lt0 by (simp add: nth_append)
    moreover have "take (s - pos) (drop pos T) ! (p - pos) = T ! p"
      using True se Cons.prems(3,4) by simp
    ultimately have "replace_from pos T (x # A) ! (p - pos) = T ! p" by simp
    with lt sh show ?thesis by (simp del: of_nat_diff)
  next
    case False
    with out have ep: "e \<le> p" by simp
    have 1: "sorted_wrt (\<lambda>a b. fst (snd a) \<le> fst b) A"
      using Cons.prems(1) by simp
    have 2: "\<forall>(s', e', l')\<in>set A. e \<le> s' \<and> s' < e' \<and> e' \<le> length T"
      using Cons.prems(1,2) x by auto
    have 5: "\<forall>(s, e, l)\<in>set A. \<not> (s \<le> p \<and> p < e)"
      using Cons.prems(5) by simp
    from Cons.IH [OF 1 2 ep Cons.prems(4) 5]
    have IH: "0 \<le> int (p - e) + shift3 A p"
      "nat (int (p - e) + shift3 A p) < length (replace_from e T A)"
      "replace_from e T A ! nat (int (p - e) + shift3 A p) = T ! p"
      by simp_all
    let ?k = "nat (int (p - e) + shift3 A p)"
    have sh: "shift3 (x # A) p = int (length l) - (int e - int s) + shift3 A p"
      using x ep by (simp add: shift3_Cons)
    have idx: "int (p - pos) + shift3 (x # A) p = int ((s - pos) + length l + ?k)"
      using sh IH(1) ep se Cons.prems(3) by simp
    have len: "length (take (s - pos) (drop pos T)) = s - pos"
      using se by simp
    have "replace_from pos T (x # A) ! ((s - pos) + length l + ?k) = replace_from e T A ! ?k"
      using x len by (simp add: nth_append)
    then have nth: "replace_from pos T (x # A) ! ((s - pos) + length l + ?k) = T ! p"
      using IH(3) by (rule trans)
    have lt: "(s - pos) + length l + ?k < length (replace_from pos T (x # A))"
      using x len IH(2) by simp
    have nn: "0 \<le> int (p - pos) + shift3 (x # A) p"
      unfolding idx by (rule of_nat_0_le_iff)
    have ni: "nat (int (p - pos) + shift3 (x # A) p) = (s - pos) + length l + ?k"
      unfolding idx by (rule nat_int)
    show ?thesis
    proof (intro conjI)
      show "0 \<le> int (p - pos) + shift3 (x # A) p" by (rule nn)
      show "nat (int (p - pos) + shift3 (x # A) p) < length (replace_from pos T (x # A))"
        unfolding ni by (rule lt)
      show "replace_from pos T (x # A) ! nat (int (p - pos) + shift3 (x # A) p) = T ! p"
        unfolding ni by (rule nth)
    qed
  qed
qed

lemma sorted_wrt_conj:
  "sorted_wrt P xs \<Longrightarrow> sorted_wrt Q xs \<Longrightarrow> \<forall>x\<in>set xs. S x
    \<Longrightarrow> sorted_wrt (\<lambda>a b. P a b \<and> Q a b \<and> S a \<and> S b) xs"
  by (induction xs) auto

lemma asc_spans:
  assumes "\<forall>d\<in>set D. in_range text d"
    and "sorted_wrt (\<lambda>a b. d_start (item b) \<le> d_start (item a)) D"
    and "sorted_wrt (\<lambda>a b. \<not> overlaps a b) D"
  shows "sorted_wrt (\<lambda>a b. fst (snd a) \<le> fst b) (map span_of (rev D))"
proof -
  have "sorted_wrt (\<lambda>a b. d_start (item b) \<le> d_start (item a) \<and> \<not> overlaps a b
                        \<and> in_range text a \<and> in_range text b) D"
    by (rule sorted_wrt_conj [OF assms(2,3,1)])
  then have "sorted_wrt (\<lambda>a b. nat (d_end (item b)) \<le> nat (d_start (item a))) D"
  proof (rule sorted_wrt_mono_rel [rotated])
    fix a b
    assume "d_start (item b) \<le> d_start (item a) \<and> \<not> overlaps a b
                        \<and> in_range text a \<and> in_range text b"
    then have "d_end (item b) \<le> d_start (item a)"
      using desc_disjoint_before [of "text" a b] by blast
    then show "nat (d_end (item b)) \<le> nat (d_start (item a))" by simp
  qed
  then show ?thesis
    by (simp add: sorted_wrt_map sorted_wrt_rev span_of_def)
qed

lemma offset_shift_Cons:
  "offset_shift (d # D) p =
     (if d_end (item d) \<le> int p
      then int (length (label_str d)) - (d_end (item d) - d_start (item d)) else 0)
     + offset_shift D p"
  by (simp add: offset_shift_def)

lemma shift3_span_of:
  assumes "\<forall>d\<in>set D. in_range text d"
  shows "shift3 (map span_of D) p = offset_shift D p"
  using assms
proof (induction D)
  case Nil
  show ?case by (simp add: offset_shift_def)
next
  case (Cons d D)
  then have nn: "0 \<le> d_start (item d)" "0 \<le> d_end (item d)"
    by (auto simp: in_range_def)
  have sd: "span_of d = (nat (d_start (item d)), nat (d_end (item d)), label_str d)"
    by (simp add: span_of_def)
  from Cons have IH: "shift3 (map span_of D) p = offset_shift D p" by simp
  show ?case
    using nn by (simp add: sd shift3_Cons IH offset_shift_Cons nat_le_iff)
qed

lemma offset_shift_rev: "offset_shift (rev D) p = offset_shift D p"
  by (simp add: offset_shift_def rev_filter [symmetric] rev_map [symmetric] sum_list_rev
           del: rev_filter rev_map)

lemma replace_spans_nth:
  assumes D: "\<forall>d\<in>set D. in_range text d"
    and desc: "sorted_wrt (\<lambda>a b. d_start (item b) \<le> d_start (item a)) D"
    and dis: "sorted_wrt (\<lambda>a b. \<not> overlaps a b) D"
    and p: "p < length text"
    and out: "\<forall>d\<in>set D. \<not> (d_start (item d) \<le> int p \<and> int p < d_end (item d))"
  shows "0 \<le> int p + offset_shift D p
       \<and> nat (int p + offset_shift D p) < length (replace_spans text (map span_of (rev D)))
       \<and> replace_spans text (map span_of (rev D)) ! nat (int p + offset_shift D p) = text ! p"
proof -
  let ?A = "map span_of (rev D)"
  have 1: "sorted_wrt (\<lambda>a b. fst (snd a) \<le> fst b) ?A"
    by (rule asc_spans [OF D desc dis])
  have 2: "\<forall>(s, e, l)\<in>set ?A. 0 \<le> s \<and> s < e \<and> e \<le> length text"
    using D by (auto simp: span_of_def in_range_def)
  have 5: "\<forall>(s, e, l)\<in>set ?A. \<not> (s \<le> p \<and> p < e)"
  proof -
    have "\<not> (nat (d_start (item d)) \<le> p \<and> p < nat (d_end (item d)))" if "d \<in> set D" for d
    proof -
      from that D have "0 \<le> d_start (item d)" "0 \<le> d_end (item d)" by (auto simp: in_range_def)
      with out that show ?thesis by (auto simp: nat_le_iff)
    qed
    then show ?thesis by (auto simp: span_of_def)
  qed
  have sh: "shift3 ?A p = offset_shift D p"
    using shift3_span_of [of "rev D" "text" p] D by (simp add: offset_shift_rev)
  from replace_from_nth [OF 1 2 _ p 5] sh show ?thesis
    by (simp add: replace_spans_def)
qed

subsection \<open>Reading the working copy instead of the original\<close>

lemma py_slice_working:
  assumes "in_range text d" "d_end (item d) \<le> int m" "m \<le> length text"
  shows "py_slice (take m text @ R) (d_start (item d)) (d_end (item d))
       = py_slice text (d_start (item d)) (d_end (item d))"
proof -
  let ?s = "nat (d_start (item d))" and ?e = "nat (d_end (item d))"
  from assms have b: "0 \<le> d_start (item d)" "0 \<le> d_end (item d)" "?s < ?e" "?e \<le> m"
      "m \<le> length text" "?s \<le> m" "?s \<le> length text" "?e \<le> length text"
    by (auto simp: in_range_def)
  then have sb: "slice_bound (take m text @ R) (d_start (item d)) = ?s"
      "slice_bound (take m text @ R) (d_end (item d)) = ?e"
      "slice_bound text (d_start (item d)) = ?s"
      "slice_bound text (d_end (item d)) = ?e"
    by (simp_all add: slice_bound_def)
  have le: "?e - ?s \<le> m - ?s" using b by arith
  have "take (?e - ?s) (drop ?s (take m text @ R)) = take (?e - ?s) (drop ?s text)"
    using b le by (simp add: drop_take min_def)
  then show ?thesis by (simp add: py_slice_def sb)
qed

lemma rewrite_live_eq:
  assumes "sorted_wrt (\<lambda>a b. d_start (item b) \<le> d_start (item a)) D"
    and "sorted_wrt (\<lambda>a b. \<not> overlaps a b) D"
    and "\<forall>d\<in>set D. in_range text d \<longrightarrow> d_end (item d) \<le> int m"
    and "m \<le> length text"
  shows "rewrite_live text D (take m text @ R) = rewrite text D (take m text @ R)"
  using assms
proof (induction D arbitrary: m R)
  case Nil
  show ?case by simp
next
  case (Cons d D)
  have rest: "sorted_wrt (\<lambda>a b. d_start (item b) \<le> d_start (item a)) D"
    "sorted_wrt (\<lambda>a b. \<not> overlaps a b) D"
    "\<forall>d\<in>set D. in_range text d \<longrightarrow> d_end (item d) \<le> int m"
    using Cons.prems by simp_all
  note same = Cons.IH [OF rest Cons.prems(4)]
  show ?case
  proof (cases "in_range text d")
    case False
    with same show ?thesis by simp
  next
    case True
    let ?s = "nat (d_start (item d))" and ?e = "nat (d_end (item d))"
    let ?w = "take m text @ R"
    from True Cons.prems(3) have em: "d_end (item d) \<le> int m" by simp
    have vm: "value_matches ?w d = value_matches text d"
      by (simp add: value_matches_def py_slice_working [OF True em Cons.prems(4)])
    show ?thesis
    proof (cases "value_matches text d")
      case False
      with vm True same show ?thesis by simp
    next
      case vmT: True
      show ?thesis
      proof (cases "redaction_label d")
        case (PStr l)
        from True em Cons.prems(4) have b: "0 \<le> d_start (item d)" "?s < ?e" "?e \<le> m" "?s \<le> m"
          "m \<le> length text"
          by (auto simp: in_range_def)
        have pre: "py_prefix ?w (d_start (item d)) = take ?s text"
          using b by (simp add: py_prefix_def slice_bound_def min_def)
        have ends: "\<forall>d'\<in>set D. in_range text d' \<longrightarrow> d_end (item d') \<le> int ?s"
        proof (intro ballI impI)
          fix d' assume d': "d' \<in> set D" "in_range text d'"
          with Cons.prems(1,2) have "\<not> overlaps d d'" "d_start (item d') \<le> d_start (item d)"
            by auto
          from desc_disjoint_before [OF True d'(2) this] b
          show "d_end (item d') \<le> int ?s" by simp
        qed
        have "?s \<le> length text" using b by simp
        from Cons.IH [OF rest(1,2) ends this]
        have "rewrite_live text D (take ?s text @ l @ py_suffix ?w (d_end (item d)))
            = rewrite text D (take ?s text @ l @ py_suffix ?w (d_end (item d)))" .
        with True vm vmT PStr pre show ?thesis by simp
      qed (use True vm vmT in simp_all)
    qed
  qed
qed

lemma redact_text_live_eq: "redact_text_live text dets settings = redact_text text dets settings"
proof -
  have "rewrite_live text (redaction_plan settings dets) (take (length text) text @ [])
      = rewrite text (redaction_plan settings dets) (take (length text) text @ [])"
    by (rule rewrite_live_eq [OF redaction_plan_desc redaction_plan_disjoint])
       (auto simp: in_range_def)
  then show ?thesis by (simp add: redact_text_live_def redact_text_def)
qed

section \<open>Labels follow detection order\<close>

lemma labels_in_order_Cons:
  "map (\<lambda>(i, it). \<lparr>item = it, redaction_label = get_redaction_label k (c + int i) settings\<rparr>)
       (enumerate 0 (x # xs))
   = \<lparr>item = x, redaction_label = get_redaction_label k c settings\<rparr>
     # map (\<lambda>(i, it). \<lparr>item = it, redaction_label = get_redaction_label k ((c + 1) + int i) settings\<rparr>)
         (enumerate 0 xs)"
  by (simp add: enumerate_Suc_eq case_prod_beta comp_def algebra_simps)

lemma label_items_eq:
  "label_items settings k items (tc, acc) =
    (if enabled settings k then
       (tc(k := tc k + int (length items)),
        acc @ map (\<lambda>(i, it). \<lparr>item = it,
                               redaction_label = get_redaction_label k (tc k + int i) settings\<rparr>)
                  (enumerate 0 items))
     else (tc, acc))"
proof (induction items arbitrary: tc acc)
  case Nil
  show ?case by simp
next
  case (Cons x xs)
  show ?case
  proof (cases "enabled settings k")
    case False
    with Cons show ?thesis by simp
  next
    case True
    show ?thesis
      using True by (simp add: Cons Let_def labels_in_order_Cons add.assoc del: enumerate_simps)
  qed
qed

lemma label_all_eq:
  assumes "distinct (map fst dets)" and "\<forall>k\<in>set (map fst dets). tc k = 0"
  shows "snd (label_all settings dets (tc, acc)) =
     acc @ concat (map (\<lambda>(pii_type, items).
                          if enabled settings pii_type
                          then labels_in_order settings pii_type items else []) dets)"
  using assms
proof (induction dets arbitrary: tc acc)
  case Nil
  show ?case by simp
next
  case (Cons kv dets)
  obtain k items where kv: "kv = (k, items)" by (cases kv)
  from Cons.prems kv have k0: "tc k = 0" and notin: "k \<notin> set (map fst dets)"
    and dist: "distinct (map fst dets)" and rest0: "\<forall>k'\<in>set (map fst dets). tc k' = 0"
    by auto
  show ?case
  proof (cases "enabled settings k")
    case False
    with Cons.IH [OF dist rest0] kv show ?thesis
      by (simp add: label_items_eq)
  next
    case True
    let ?tc = "tc(k := tc k + int (length items))"
    have zero: "\<forall>k'\<in>set (map fst dets). ?tc k' = 0"
      using rest0 notin by auto
    have step: "label_items settings k items (tc, acc)
                = (?tc, acc @ labels_in_order settings k items)"
      using True k0 by (simp add: label_items_eq labels_in_order_def)
    have "snd (label_all settings (kv # dets) (tc, acc))
          = snd (label_all settings dets (?tc, acc @ labels_in_order settings k items))"
      unfolding kv by (simp only: label_all.simps step)
    also have "\<dots> = (acc @ labels_in_order settings k items)
                     @ concat (map (\<lambda>(pii_type, items).
                          if enabled settings pii_type
                          then labels_in_order settings pii_type items else []) dets)"
      by (rule Cons.IH [OF dist zero])
    finally show ?thesis using True kv by simp
  qed
qed

lemma label_detections_eq:
  assumes "distinct (map fst dets)"
  shows "label_detections settings dets =
     concat (map (\<lambda>(pii_type, items).
                    if enabled settings pii_type
                    then labels_in_order settings pii_type items else []) dets)"
  using label_all_eq [OF assms, where tc = "\<lambda>_. 0" and acc = "[]" and settings = settings]
  by (simp add: label_detections_def)

lemma indexed_labels_in_order:
  assumes "settings ''redaction_style'' \<noteq> Some (PStr ''black_boxes'')"
    and "settings ''redaction_style'' \<noteq> Some (PStr ''custom'')"
  shows "labels_in_order settings k items =
     map (\<lambda>(i, it).
            \<lparr>item = it,
             redaction_label =
               PStr (''['' @ dict_get (map_of type_labels) k ''REDACTED''
                       @ ''_'' @ str_int (int i + 1) @ '']'')\<rparr>)
         (enumerate 0 items)"
proof -
  from assms have "dict_get settings ''redaction_style'' (PStr ''labels'') \<noteq> PStr ''black_boxes''"
       "dict_get settings ''redaction_style'' (PStr ''labels'') \<noteq> PStr ''custom''"
    by (auto simp: dict_get_def split: option.splits)
  then have lab: "get_redaction_label k (int i) settings
                 = PStr (''['' @ dict_get (map_of type_labels) k ''REDACTED'' @ ''_''
                          @ str_int (int i + 1) @ '']'')" for i
    by (simp add: get_redaction_label_def Let_def)
  show ?thesis
    unfolding labels_in_order_def by (simp only: lab)
qed

section \<open>The claims about redaction\<close>

lemmas plan_eval = redaction_plan_def label_detections_def enabled_def dict_get_def
  get_redaction_label_def type_labels_def str_int_def str_nat.simps digit_char_def size_key_def
  overlaps_def Let_def

lemmas example_defs = ex_text_def ex_name_def ex_email_def ex_dets_def stale_email_def
  stale_dets_def ex_address_def ex_zip_def address_dets_def chain_a_def chain_b_def chain_c_def
  chain_dets_def ssn_10_def ssn_50_def

text \<open>
  Claim C2. Any two spans at different places of the plan the rewriter walks (the spans
  that survive overlap filtering) satisfy \<open>a.end \<le> b.start\<close> or \<open>b.end \<le> a.start\<close>, and
  no character position lies in both, for every settings and detections map.
\<close>

theorem redaction_plan_no_overlap:
  assumes "i < length (redaction_plan settings dets)"
    and "j < length (redaction_plan settings dets)"
    and "i \<noteq> j"
  shows "(let a = item (redaction_plan settings dets ! i);
              b = item (redaction_plan settings dets ! j)
          in (d_end a \<le> d_start b \<or> d_end b \<le> d_start a)
             \<and> (\<forall>p. \<not> (d_start a \<le> p \<and> p < d_end a \<and> d_start b \<le> p \<and> p < d_end b)))"
proof -
  have "\<not> overlaps (redaction_plan settings dets ! i) (redaction_plan settings dets ! j)"
    using sorted_wrt_nth_neq [OF redaction_plan_disjoint, of i settings dets j] assms
    by (simp add: overlaps_sym)
  then show ?thesis
    by (auto simp: overlaps_def Let_def)
qed

lemma ex_plan:
  "redaction_plan Map.empty ex_dets =
     [\<lparr>item = ex_email, redaction_label = PStr ''[REDACTED_1]''\<rparr>,
      \<lparr>item = ex_name, redaction_label = PStr ''[REDACTED_1]''\<rparr>]"
  by (simp add: plan_eval example_defs)

theorem redaction_plan_no_overlap_witness:
  "d_end ex_name \<le> d_start ex_email
   \<and> (\<forall>p. \<not> (d_start ex_email \<le> p \<and> p < d_end ex_email \<and> d_start ex_name \<le> p \<and> p < d_end ex_name))"
  using redaction_plan_no_overlap [of 0 Map.empty ex_dets 1]
  by (simp add: ex_plan) (simp add: example_defs)

text \<open>
  Claim C5, as amended. The candidates are swept by length descending, ties by ascending
  start, and the plan holds what the sweep keeps; for spans with \<open>start < end\<close> the
  overlap test of the sweep is the sharing of a character position. Of two overlapping
  candidates of different lengths at most one is in the plan; the longer one is in the
  plan, and the shorter one absent, whenever the longer sorts strictly ahead of every
  other candidate it overlaps. (When the longer one loses to a third candidate kept before it, the shorter
  one may survive: see the counterexample.)
\<close>

theorem overlap_resolution_size_bias:
  assumes "a \<in> set (label_detections settings dets)"
    and "b \<in> set (label_detections settings dets)"
    and "overlaps a b"
    and "d_end (item b) - d_start (item b) < d_end (item a) - d_start (item a)"
  shows "(\<forall>i j. i < j \<longrightarrow> j < length (sort_key size_key (label_detections settings dets)) \<longrightarrow>
            (let x = item (sort_key size_key (label_detections settings dets) ! i);
                 y = item (sort_key size_key (label_detections settings dets) ! j)
             in d_end x - d_start x > d_end y - d_start y
                \<or> (d_end x - d_start x = d_end y - d_start y \<and> d_start x \<le> d_start y)))
       \<and> set (redaction_plan settings dets)
           = set (remove_overlaps (sort_key size_key (label_detections settings dets)) [])
       \<and> (\<forall>x y. d_start (item x) < d_end (item x) \<longrightarrow> d_start (item y) < d_end (item y) \<longrightarrow>
            overlaps x y
              = (\<exists>p. d_start (item x) \<le> p \<and> p < d_end (item x)
                      \<and> d_start (item y) \<le> p \<and> p < d_end (item y)))
       \<and> \<not> (a \<in> set (redaction_plan settings dets) \<and> b \<in> set (redaction_plan settings dets))
       \<and> ((\<forall>c\<in>set (label_detections settings dets).
               c \<noteq> a \<and> overlaps a c \<longrightarrow> size_key a < size_key c)
            \<longrightarrow> a \<in> set (redaction_plan settings dets) \<and> b \<notin> set (redaction_plan settings dets))"
proof (intro conjI allI impI)
  fix i j
  assume "i < j" "j < length (sort_key size_key (label_detections settings dets))"
  then show "(let x = item (sort_key size_key (label_detections settings dets) ! i);
                 y = item (sort_key size_key (label_detections settings dets) ! j)
             in d_end x - d_start x > d_end y - d_start y
                \<or> (d_end x - d_start x = d_end y - d_start y \<and> d_start x \<le> d_start y))"
    by (rule sweep_order)
next
  show "set (redaction_plan settings dets)
           = set (remove_overlaps (sort_key size_key (label_detections settings dets)) [])"
    by (simp add: redaction_plan_def)
next
  fix x y :: labelled
  assume "d_start (item x) < d_end (item x)" "d_start (item y) < d_end (item y)"
  then show "overlaps x y
              = (\<exists>p. d_start (item x) \<le> p \<and> p < d_end (item x)
                      \<and> d_start (item y) \<le> p \<and> p < d_end (item y))"
    by (rule overlaps_shares_position)
next
  from assms(4) have ne: "a \<noteq> b" by auto
  show nb: "\<not> (a \<in> set (redaction_plan settings dets) \<and> b \<in> set (redaction_plan settings dets))"
    using not_both_in_plan [OF _ _ assms(3) ne] by blast
  assume ahead: "\<forall>c\<in>set (label_detections settings dets).
               c \<noteq> a \<and> overlaps a c \<longrightarrow> size_key a < size_key c"
  show a: "a \<in> set (redaction_plan settings dets)"
    by (rule ahead_in_plan [OF assms(1) ahead])
  with nb show "b \<notin> set (redaction_plan settings dets)" by blast
qed

lemma address_labelled:
  "label_detections Map.empty address_dets =
     [\<lparr>item = ex_address, redaction_label = PStr ''[REDACTED_1]''\<rparr>,
      \<lparr>item = ex_zip, redaction_label = PStr ''[SSN_1]''\<rparr>]"
  by (simp add: plan_eval example_defs)

theorem overlap_resolution_size_bias_witness:
  "\<lparr>item = ex_address, redaction_label = PStr ''[REDACTED_1]''\<rparr>
      \<in> set (redaction_plan Map.empty address_dets)
   \<and> \<lparr>item = ex_zip, redaction_label = PStr ''[SSN_1]''\<rparr>
      \<notin> set (redaction_plan Map.empty address_dets)"
proof -
  let ?a = "\<lparr>item = ex_address, redaction_label = PStr ''[REDACTED_1]''\<rparr>"
  let ?b = "\<lparr>item = ex_zip, redaction_label = PStr ''[SSN_1]''\<rparr>"
  have 1: "?a \<in> set (label_detections Map.empty address_dets)"
    and 2: "?b \<in> set (label_detections Map.empty address_dets)"
    by (simp_all add: address_labelled)
  have 3: "overlaps ?a ?b"
    by (simp add: overlaps_def example_defs)
  have 4: "d_end (item ?b) - d_start (item ?b) < d_end (item ?a) - d_start (item ?a)"
    by (simp add: example_defs)
  have 5: "\<forall>c\<in>set (label_detections Map.empty address_dets).
               c \<noteq> ?a \<and> overlaps ?a c \<longrightarrow> size_key ?a < size_key c"
    unfolding address_labelled by (simp add: size_key_def overlaps_def example_defs)
  from overlap_resolution_size_bias [OF 1 2 3 4] 5 show ?thesis by blast
qed

text \<open>
  Three candidates in a chain: the address (34 characters) overlaps the phone (14), which
  overlaps the name (8). The phone loses to the address, and the name, shorter than the
  phone it overlaps, is kept.
\<close>

theorem size_bias_counterexample:
  "map item (label_detections Map.empty chain_dets) = [chain_a, chain_b, chain_c]
   \<and> d_start chain_c < d_end chain_b \<and> d_start chain_b < d_end chain_c
   \<and> d_end chain_c - d_start chain_c < d_end chain_b - d_start chain_b
   \<and> map item (redaction_plan Map.empty chain_dets) = [chain_c, chain_a]
   \<and> chain_b \<notin> set (map item (redaction_plan Map.empty chain_dets))
   \<and> chain_c \<in> set (map item (redaction_plan Map.empty chain_dets))"
  by (simp add: plan_eval example_defs)

lemmas rewrite_eval = redact_text_def in_range_def value_matches_def py_slice_def slice_bound_def
  py_prefix_def py_suffix_def

lemma outside_applied_nth:
  assumes out: "redact_text text dets settings = Inr out"
    and p: "p < length text"
    and outside: "\<forall>d\<in>set (applied text (redaction_plan settings dets)).
                    \<not> (d_start (item d) \<le> int p \<and> int p < d_end (item d))"
  shows "0 \<le> int p + offset_shift (applied text (redaction_plan settings dets)) p
       \<and> nat (int p + offset_shift (applied text (redaction_plan settings dets)) p) < length out
       \<and> out ! nat (int p + offset_shift (applied text (redaction_plan settings dets)) p) = text ! p"
proof -
  let ?D = "applied text (redaction_plan settings dets)"
  from out have eq: "out = replace_spans text (map span_of (rev ?D))"
    by (simp add: redact_text_eq split: if_splits)
  have D: "\<forall>d\<in>set ?D. in_range text d"
    by (simp add: applied_def)
  from replace_spans_nth [OF D applied_desc applied_disjoint p outside] eq
  show ?thesis by simp
qed

text \<open>
  Claim C1. \<open>redact_text\<close> returns the original text with each applied span replaced by
  its label and nothing else changed (or raises TypeError when a label to apply is not a
  string); every character outside all applied spans is found unchanged in the output, at
  its position shifted by the replacements that end before it.
\<close>

theorem redact_text_verbatim_outside:
  "redact_text text dets settings =
     (if \<forall>d\<in>set (applied text (redaction_plan settings dets)). is_str (redaction_label d)
      then Inr (replace_spans text (map span_of (rev (applied text (redaction_plan settings dets)))))
      else Inl TypeError)
   \<and> (\<forall>out p. redact_text text dets settings = Inr out \<longrightarrow> p < length text \<longrightarrow>
         (\<forall>d\<in>set (applied text (redaction_plan settings dets)).
             \<not> (d_start (item d) \<le> int p \<and> int p < d_end (item d))) \<longrightarrow>
         0 \<le> int p + offset_shift (applied text (redaction_plan settings dets)) p
         \<and> nat (int p + offset_shift (applied text (redaction_plan settings dets)) p) < length out
         \<and> out ! nat (int p + offset_shift (applied text (redaction_plan settings dets)) p)
             = text ! p)"
  using redact_text_eq [of "text" dets settings] outside_applied_nth [of "text" dets settings]
  by blast

lemma ex_applied:
  "applied ex_text (redaction_plan Map.empty ex_dets) =
     [\<lparr>item = ex_email, redaction_label = PStr ''[REDACTED_1]''\<rparr>,
      \<lparr>item = ex_name, redaction_label = PStr ''[REDACTED_1]''\<rparr>]"
  unfolding ex_plan by (simp add: applied_def rewrite_eval example_defs)

lemma ex_redacted:
  "redact_text ex_text ex_dets Map.empty = Inr ''Contact [REDACTED_1] at [REDACTED_1]''"
  unfolding redact_text_def ex_plan
  by (simp add: plan_eval rewrite_eval example_defs)

theorem redact_text_verbatim_outside_witness:
  "redact_text ex_text ex_dets Map.empty = Inr ''Contact [REDACTED_1] at [REDACTED_1]''
   \<and> ''Contact [REDACTED_1] at [REDACTED_1]'' ! 21 = ex_text ! 22"
proof -
  have sh: "offset_shift (applied ex_text (redaction_plan Map.empty ex_dets)) 22 = - 1"
    unfolding ex_applied by (simp add: offset_shift_def label_str_def example_defs)
  have outside: "\<forall>d\<in>set (applied ex_text (redaction_plan Map.empty ex_dets)).
             \<not> (d_start (item d) \<le> int 22 \<and> int 22 < d_end (item d))"
    unfolding ex_applied by (simp add: example_defs)
  have len: "22 < length ex_text"
    by (simp add: example_defs)
  from redact_text_verbatim_outside [of "ex_text" ex_dets Map.empty] ex_redacted len outside
  have "''Contact [REDACTED_1] at [REDACTED_1]''
          ! nat (int 22 + offset_shift (applied ex_text (redaction_plan Map.empty ex_dets)) 22)
        = ex_text ! 22"
    by blast
  with sh ex_redacted show ?thesis by simp
qed

text \<open>
  Claim C6. The value check gives the same result read from the working copy as read from
  the original text, which is what the source reads: the two loops agree on every input. A
  span that fails the guard or the check changes nothing and raises nothing, the rest of
  the plan is applied, and the characters of the text under the skipped span are found
  unchanged in the output.
\<close>

theorem stale_span_skipped:
  "redact_text_live text dets settings = redact_text text dets settings
   \<and> (\<forall>d rest w. \<not> (in_range text d \<and> value_matches text d)
          \<longrightarrow> rewrite text (d # rest) w = rewrite text rest w)
   \<and> (\<forall>d out p. d \<in> set (redaction_plan settings dets)
          \<longrightarrow> \<not> (in_range text d \<and> value_matches text d)
          \<longrightarrow> redact_text text dets settings = Inr out
          \<longrightarrow> p < length text \<longrightarrow> d_start (item d) \<le> int p \<longrightarrow> int p < d_end (item d)
          \<longrightarrow> nat (int p + offset_shift (applied text (redaction_plan settings dets)) p) < length out
              \<and> out ! nat (int p + offset_shift (applied text (redaction_plan settings dets)) p)
                  = text ! p)"
proof (intro conjI allI impI)
  show "redact_text_live text dets settings = redact_text text dets settings"
    by (rule redact_text_live_eq)
next
  fix d rest w
  assume "\<not> (in_range text d \<and> value_matches text d)"
  then show "rewrite text (d # rest) w = rewrite text rest w" by auto
next
  fix d out p
  assume d: "d \<in> set (redaction_plan settings dets)"
    and skipped: "\<not> (in_range text d \<and> value_matches text d)"
    and out: "redact_text text dets settings = Inr out"
    and p: "p < length text" "d_start (item d) \<le> int p" "int p < d_end (item d)"
  have outside: "\<forall>d'\<in>set (applied text (redaction_plan settings dets)).
                    \<not> (d_start (item d') \<le> int p \<and> int p < d_end (item d'))"
  proof
    fix d' assume "d' \<in> set (applied text (redaction_plan settings dets))"
    then have d': "d' \<in> set (redaction_plan settings dets)" "in_range text d' \<and> value_matches text d'"
      by (auto simp: applied_def)
    with skipped have "d \<noteq> d'" by auto
    with not_both_in_plan [OF d d'(1)] have "\<not> overlaps d d'" by blast
    with p show "\<not> (d_start (item d') \<le> int p \<and> int p < d_end (item d'))"
      by (auto simp: overlaps_def)
  qed
  from outside_applied_nth [OF out p(1) outside]
  show "nat (int p + offset_shift (applied text (redaction_plan settings dets)) p) < length out"
    and "out ! nat (int p + offset_shift (applied text (redaction_plan settings dets)) p) = text ! p"
    by simp_all
qed

lemma stale_plan:
  "redaction_plan Map.empty stale_dets =
     [\<lparr>item = stale_email, redaction_label = PStr ''[REDACTED_1]''\<rparr>,
      \<lparr>item = ex_name, redaction_label = PStr ''[REDACTED_1]''\<rparr>]"
  by (simp add: plan_eval example_defs)

lemma stale_applied:
  "applied ex_text (redaction_plan Map.empty stale_dets) =
     [\<lparr>item = ex_name, redaction_label = PStr ''[REDACTED_1]''\<rparr>]"
  unfolding stale_plan by (simp add: applied_def rewrite_eval example_defs)

lemma stale_redacted:
  "redact_text ex_text stale_dets Map.empty = Inr ''Contact [REDACTED_1] at emily.j@example.com''"
  unfolding redact_text_def stale_plan
  by (simp add: plan_eval rewrite_eval example_defs)

theorem stale_span_skipped_witness:
  "redact_text_live ex_text stale_dets Map.empty
      = Inr ''Contact [REDACTED_1] at emily.j@example.com''
   \<and> ''Contact [REDACTED_1] at emily.j@example.com'' ! 29 = ex_text ! 30"
proof -
  let ?d = "\<lparr>item = stale_email, redaction_label = PStr ''[REDACTED_1]''\<rparr>"
  have d: "?d \<in> set (redaction_plan Map.empty stale_dets)"
    by (simp add: stale_plan)
  have skipped: "\<not> (in_range ex_text ?d \<and> value_matches ex_text ?d)"
    by (simp add: rewrite_eval example_defs)
  have p: "30 < length ex_text" "d_start (item ?d) \<le> int 30" "int 30 < d_end (item ?d)"
    by (simp_all add: example_defs)
  have sh: "offset_shift (applied ex_text (redaction_plan Map.empty stale_dets)) 30 = - 1"
    unfolding stale_applied by (simp add: offset_shift_def label_str_def example_defs)
  from stale_span_skipped [of "ex_text" stale_dets Map.empty] d skipped stale_redacted p
  have "redact_text_live ex_text stale_dets Map.empty = redact_text ex_text stale_dets Map.empty"
    and "''Contact [REDACTED_1] at emily.j@example.com''
          ! nat (int 30 + offset_shift (applied ex_text (redaction_plan Map.empty stale_dets)) 30)
        = ex_text ! 30"
    by blast+
  with sh stale_redacted show ?thesis by simp
qed

text \<open>
  Claim C3, as amended. With the indexed style, labels are assigned before overlap
  resolution, category by category in the order of the detections map: the span at
  position \<open>i\<close> of an enabled category's list gets the label \<^verbatim>\<open>[NAME_n]\<close> with
  \<open>n = i + 1\<close> and \<open>NAME\<close> a display name fixed for the category key (SSN for
  \<^verbatim>\<open>ssn\<close>), and the plan keeps these labels.
\<close>

theorem labels_follow_detection_order:
  "\<exists>name_of. name_of ''ssn'' = ''SSN''
     \<and> (\<forall>settings dets.
           distinct (map fst dets)
           \<longrightarrow> settings ''redaction_style'' \<noteq> Some (PStr ''black_boxes'')
           \<longrightarrow> settings ''redaction_style'' \<noteq> Some (PStr ''custom'')
           \<longrightarrow> label_detections settings dets =
              concat (map (\<lambda>(pii_type, items).
                             if enabled settings pii_type
                             then map (\<lambda>(i, it).
                                         \<lparr>item = it,
                                          redaction_label =
                                            PStr (''['' @ name_of pii_type @ ''_''
                                                    @ str_int (int i + 1) @ '']'')\<rparr>)
                                      (enumerate 0 items)
                             else []) dets)
               \<and> set (redaction_plan settings dets) \<subseteq> set (label_detections settings dets))"
proof (intro exI [of _ "\<lambda>k. dict_get (map_of type_labels) k ''REDACTED''"] conjI allI impI)
  show "dict_get (map_of type_labels) ''ssn'' ''REDACTED'' = ''SSN''"
    by (simp add: dict_get_def type_labels_def)
next
  fix settings :: settings and dets :: detections
  assume d: "distinct (map fst dets)"
    and s1: "settings ''redaction_style'' \<noteq> Some (PStr ''black_boxes'')"
    and s2: "settings ''redaction_style'' \<noteq> Some (PStr ''custom'')"
  show "label_detections settings dets =
              concat (map (\<lambda>(pii_type, items).
                             if enabled settings pii_type
                             then map (\<lambda>(i, it).
                                         \<lparr>item = it,
                                          redaction_label =
                                            PStr (''['' @ dict_get (map_of type_labels) pii_type ''REDACTED''
                                                    @ ''_'' @ str_int (int i + 1) @ '']'')\<rparr>)
                                      (enumerate 0 items)
                             else []) dets)"
    unfolding label_detections_eq [OF d] indexed_labels_in_order [of settings, OF s1 s2]
    by (rule refl)
  show "set (redaction_plan settings dets) \<subseteq> set (label_detections settings dets)"
    by (rule redaction_plan_subset)
qed

theorem labels_follow_detection_order_witness:
  "label_detections Map.empty [(''ssn'', [ssn_10, ssn_50])] =
     [\<lparr>item = ssn_10, redaction_label = PStr ''[SSN_1]''\<rparr>,
      \<lparr>item = ssn_50, redaction_label = PStr ''[SSN_2]''\<rparr>]
   \<and> label_detections Map.empty [(''ssn'', [ssn_50, ssn_10])] =
     [\<lparr>item = ssn_50, redaction_label = PStr ''[SSN_1]''\<rparr>,
      \<lparr>item = ssn_10, redaction_label = PStr ''[SSN_2]''\<rparr>]"
proof -
  from labels_follow_detection_order obtain name_of where
    *: "name_of ''ssn'' = ''SSN''
     \<and> (\<forall>settings dets.
           distinct (map fst dets)
           \<longrightarrow> settings ''redaction_style'' \<noteq> Some (PStr ''black_boxes'')
           \<longrightarrow> settings ''redaction_style'' \<noteq> Some (PStr ''custom'')
           \<longrightarrow> label_detections settings dets =
              concat (map (\<lambda>(pii_type, items).
                             if enabled settings pii_type
                             then map (\<lambda>(i, it).
                                         \<lparr>item = it,
                                          redaction_label =
                                            PStr (''['' @ name_of pii_type @ ''_''
                                                    @ str_int (int i + 1) @ '']'')\<rparr>)
                                      (enumerate 0 items)
                             else []) dets)
               \<and> set (redaction_plan settings dets) \<subseteq> set (label_detections settings dets))" ..
  then have n: "name_of ''ssn'' = ''SSN''" by (rule conjunct1)
  have en: "enabled Map.empty ''ssn''"
    by (simp add: enabled_def dict_get_def)
  have d1: "distinct (map fst [(''ssn'', [ssn_10, ssn_50])])"
    and d2: "distinct (map fst [(''ssn'', [ssn_50, ssn_10])])"
    by simp_all
  have s: "Map.empty ''redaction_style'' \<noteq> Some (PStr ''black_boxes'')"
      "Map.empty ''redaction_style'' \<noteq> Some (PStr ''custom'')"
    by simp_all
  note eq = * [THEN conjunct2, THEN spec, THEN spec, THEN mp, THEN mp, THEN mp, THEN conjunct1]
  show ?thesis
    unfolding eq [of "[(''ssn'', [ssn_10, ssn_50])]" Map.empty, OF d1 s]
              eq [of "[(''ssn'', [ssn_50, ssn_10])]" Map.empty, OF d2 s]
    by (simp add: n en str_int_def str_nat.simps digit_char_def)
qed

text \<open>
  Two spans of one category listed against position order: the span at 50 gets number 1
  and the span at 10 gets number 2.
\<close>

theorem position_order_counterexample:
  "redaction_plan Map.empty [(''ssn'', [ssn_50, ssn_10])] =
     [\<lparr>item = ssn_50, redaction_label = PStr ''[SSN_1]''\<rparr>,
      \<lparr>item = ssn_10, redaction_label = PStr ''[SSN_2]''\<rparr>]
   \<and> d_start ssn_10 = 10 \<and> d_start ssn_50 = 50"
  by (simp add: plan_eval example_defs)

section \<open>The claims about detection\<close>

lemma join_absorb:
  "ys \<noteq> [] \<Longrightarrow> join '' '' ((a @ '' '' @ b) # ys) = a @ '' '' @ join '' '' (b # ys)"
  by (cases ys) simp_all

lemma fuse_absorb: "fuse (absorb c r) rs = fuse c (r # rs)"
proof (cases rs)
  case Nil
  then show ?thesis by (simp add: fuse_def absorb_def)
next
  case (Cons x xs)
  then have "join '' '' ((d_value c @ '' '' @ d_value r) # map d_value rs)
           = d_value c @ '' '' @ join '' '' (d_value r # map d_value rs)"
    by (intro join_absorb) simp
  with Cons show ?thesis by (simp add: fuse_def absorb_def)
qed

lemma merge_loop_chain:
  assumes "successively (\<lambda>a b. d_start b - d_end a \<le> 5) (c # run)"
    and "rest = [] \<or> 5 < d_start (hd rest) - d_end (last (c # run))"
  shows "merge_loop c (run @ rest) = fuse c run # merge_names rest"
  using assms
proof (induction run arbitrary: c)
  case Nil
  then show ?case by (cases rest) (auto simp: fuse_def)
next
  case (Cons r rs)
  from Cons.prems(1) have gap: "d_start r - d_end c \<le> 5"
    and chain: "successively (\<lambda>a b. d_start b - d_end a \<le> 5) (r # rs)"
    by simp_all
  have chain': "successively (\<lambda>a b. d_start b - d_end a \<le> 5) (absorb c r # rs)"
    using chain by (cases rs) (simp_all add: absorb_def)
  have "d_end (last (absorb c r # rs)) = d_end (last (c # r # rs))"
    by (simp add: absorb_def)
  with Cons.prems(2) have stop: "rest = [] \<or> 5 < d_start (hd rest) - d_end (last (absorb c r # rs))"
    by simp
  from Cons.IH [OF chain' stop] gap show ?case
    by (simp add: fuse_absorb)
qed

text \<open>
  Claim C8. On the person names sorted ascending by start, the merger walks left to right
  and the accumulator absorbs the next span while it starts within 5 characters of the
  accumulator's end: a run of fragments each within 5 of its predecessor merges into one
  name span whose value joins the values with single spaces, whose start is the first
  start and whose end is the last end; the first fragment further away starts a new
  accumulator.
\<close>

theorem merge_names_chain:
  assumes "successively (\<lambda>a b. d_start b - d_end a \<le> 5) (first # run)"
    and "rest = [] \<or> 5 < d_start (hd rest) - d_end (last (first # run))"
  shows "merge_names (first # run @ rest) = fuse first run # merge_names rest
       \<and> (run \<noteq> [] \<longrightarrow>
            d_value (fuse first run) = join '' '' (map d_value (first # run))
            \<and> d_start (fuse first run) = d_start first
            \<and> d_end (fuse first run) = d_end (last run))
       \<and> (truthy (dict_get settings ''redact_names'' (PBool True)) \<longrightarrow>
            detect_names (Some doc) settings
              = merge_names (sort_key d_start (person_loop doc {} []))
            \<and> sorted (map d_start (sort_key d_start (person_loop doc {} []))))"
  using merge_loop_chain [OF assms]
  by (simp add: fuse_def detect_names_def)

lemma emily_names:
  "sort_key d_start (person_loop emily_ents {} []) =
     [\<lparr>d_type = ''name'', d_value = ''Emily'', d_start = 8, d_end = 13\<rparr>,
      \<lparr>d_type = ''name'', d_value = ''Johnson'', d_start = 14, d_end = 21\<rparr>]"
  by (simp add: emily_ents_def strip_def py_space_def)

theorem merge_names_chain_witness:
  "detect_names (Some emily_ents) Map.empty = [ex_name]"
proof -
  let ?e = "\<lparr>d_type = ''name'', d_value = ''Emily'', d_start = 8, d_end = 13\<rparr>"
  let ?j = "\<lparr>d_type = ''name'', d_value = ''Johnson'', d_start = 14, d_end = 21\<rparr>"
  have 1: "successively (\<lambda>a b. d_start b - d_end a \<le> 5) (?e # [?j])" by simp
  have 2: "[] = [] \<or> 5 < d_start (hd []) - d_end (last (?e # [?j]))" by simp
  have 3: "truthy (dict_get Map.empty ''redact_names'' (PBool True))"
    by (simp add: dict_get_def)
  from merge_names_chain [OF 1 2, of Map.empty emily_ents] 3
  have "detect_names (Some emily_ents) Map.empty = [fuse ?e [?j]]"
    by (simp add: emily_names)
  then show ?thesis by (simp add: fuse_def ex_name_def)
qed

lemma cut_found:
  assumes "sep \<noteq> []" "str_in sep s"
  shows "\<exists>b a. cut sep s = Some (b, a)"
  using assms
proof (induction s)
  case Nil
  then show ?case by simp
next
  case (Cons c cs)
  show ?case
  proof (cases "starts_with sep (c # cs)")
    case True
    then show ?thesis by simp
  next
    case False
    with Cons.prems have "str_in sep cs" by simp
    from Cons.IH [OF Cons.prems(1) this] False show ?thesis by auto
  qed
qed

lemma py_split_nonempty: "py_split sep s \<noteq> []"
  by (subst py_split.simps) (auto split: option.splits)

lemma py_split_found:
  assumes "sep \<noteq> []" "str_in sep s"
  shows "\<exists>b second more. py_split sep s = b # second # more"
proof -
  from cut_found [OF assms] obtain b a where c: "cut sep s = Some (b, a)" by blast
  obtain second more where "py_split sep a = second # more"
    using py_split_nonempty [of sep a] by (cases "py_split sep a") auto
  with c assms(1) have "py_split sep s = b # second # more"
    by (subst py_split.simps) simp
  then show ?thesis by blast
qed

lemma strip_fences_total: "\<exists>result_text. strip_fences s = Some result_text"
proof -
  have f: "fence \<noteq> []" "fence @ ''json'' \<noteq> []" by (simp_all add: fence_def)
  have inner: "\<exists>r. (case py_split fence second of first # _ \<Rightarrow> Some (strip first) | [] \<Rightarrow> None) = Some r"
    for second
    using py_split_nonempty [of fence second] by (cases "py_split fence second") auto
  show ?thesis
  proof (cases "str_in (fence @ ''json'') s")
    case True
    from py_split_found [OF f(2) True] obtain b second more
      where "py_split (fence @ ''json'') s = b # second # more" by blast
    with True inner [of second] show ?thesis by (simp add: strip_fences_def)
  next
    case False
    show ?thesis
    proof (cases "str_in fence s")
      case True
      from py_split_found [OF f(1) True] obtain b second more
        where "py_split fence s = b # second # more" by blast
      with True False inner [of second] show ?thesis by (simp add: strip_fences_def)
    next
      case nf: False
      with False show ?thesis by (simp add: strip_fences_def)
    qed
  qed
qed

text \<open>
  Claim C7, as amended. When the parser raises JSONDecodeError on the reply, stripped and
  freed of its fence, \<open>validate_pii\<close> answers true unless the lower-cased text contains
  \<^verbatim>\<open>false\<close> or \<^verbatim>\<open>not pii\<close>, in which case it answers false; the text itself is the
  reasoning.
\<close>

theorem unparseable_validation:
  "\<exists>result_text. strip_fences (strip response_text) = Some result_text
     \<and> (json_loads orc result_text = JSONDecodeError
          \<longrightarrow> validate_reply orc context candidate pii_type = Inr response_text
          \<longrightarrow> validate_pii orc text candidate pii_type context
               = Inr (PBool (\<not> (str_in ''false'' (lower result_text)
                                  \<or> str_in ''not pii'' (lower result_text))),
                      PStr result_text))"
proof -
  from strip_fences_total obtain result_text
    where r: "strip_fences (strip response_text) = Some result_text" by blast
  then show ?thesis
    by (auto simp: validate_pii_def parse_validation_def)
qed

theorem unparseable_validation_witness:
  "validate_pii plain_oracle mail_text ''bob@example.com'' ''emails'' mail_text
     = Inr (PBool True, PStr ''Yes, this is PII.'')"
proof -
  have s: "strip_fences (strip ''Yes, this is PII.'') = Some ''Yes, this is PII.''"
    by (simp add: strip_fences_def strip_def py_space_def fence_def)
  have l: "\<not> str_in ''false'' (lower ''Yes, this is PII.'')"
      "\<not> str_in ''not pii'' (lower ''Yes, this is PII.'')"
    by (simp_all add: lower_def lower_char_def)
  from unparseable_validation [of "''Yes, this is PII.''" plain_oracle mail_text
      "''bob@example.com''" "''emails''" mail_text]
  show ?thesis
    by (simp add: s l plain_oracle_def)
qed

text \<open>
  A reply in prose on which the parser raises JSONDecodeError and which contains the word
  \<^verbatim>\<open>false\<close>: the candidate is rejected.
\<close>

theorem malformed_validation_counterexample:
  "json_loads vague_oracle ''Probably a false positive.'' = JSONDecodeError
   \<and> validate_pii vague_oracle ex_text ''Emily Johnson'' ''names'' ex_text
     = Inr (PBool False, PStr ''Probably a false positive.'')"
  by code_simp

text \<open>
  Outside the handler for JSONDecodeError: an exception of another kind raised by the
  parser is classified by its message, so a reply of a thousand opening brackets, whose
  RecursionError says that the recursion depth was exceeded, ends in the quota error.
\<close>

lemma parser_exception_raised:
  assumes "strip_fences (strip response_text) = Some result_text"
    and "json_loads orc result_text = Raised error_msg"
    and "validate_reply orc context candidate pii_type = Inr response_text"
  shows "validate_pii orc text candidate pii_type context = Inl (oracle_error error_msg)"
  using assms by (simp add: validate_pii_def parse_validation_def)

lemma strip_no_space:
  assumes "\<forall>c\<in>set s. \<not> py_space c"
  shows "strip s = s"
proof -
  have "dropWhile py_space s = s"
    using assms by (cases s) auto
  moreover have "dropWhile py_space (rev s) = rev s"
    using assms by (cases "rev s") (auto dest: arg_cong [where f = set])
  ultimately show ?thesis by (simp add: strip_def)
qed

lemma starts_with_set:
  "starts_with (n # ns) hay \<Longrightarrow> n \<in> set hay"
  by (cases hay) auto

lemma str_in_set:
  "str_in (n # ns) hay \<Longrightarrow> n \<in> set hay"
  by (induction hay) (auto dest: starts_with_set)

lemma strip_fences_no_fence:
  assumes "CHR 0x60 \<notin> set s"
  shows "strip_fences s = Some s"
proof -
  have "\<not> str_in (fence @ ''json'') s" "\<not> str_in fence s"
    using assms str_in_set [of "CHR 0x60" _ s] by (auto simp: fence_def)
  then show ?thesis by (simp add: strip_fences_def)
qed

lemma deep_nesting_quota_error:
  "validate_pii nesting_oracle mail_text ''bob@example.com'' ''emails'' mail_text
     = Inl QuotaExceeded"
proof -
  let ?r = "replicate 1000 (CHR ''['')"
  have "strip ?r = ?r"
    by (rule strip_no_space) (simp add: py_space_def)
  moreover have "strip_fences ?r = Some ?r"
    by (rule strip_fences_no_fence) simp
  moreover have "oracle_error ''maximum recursion depth exceeded while decoding a JSON array from a unicode string'' = QuotaExceeded"
    by (simp add: oracle_error_def quota_error_def lower_def lower_char_def)
  ultimately show ?thesis
    by (simp add: validate_pii_def parse_validation_def nesting_oracle_def)
qed







text \<open>
  Claim C4 at a failing input. Email redaction is switched off, so the email producer
  yields nothing; the oracle's discovery step reports an email address, and \<open>detect_all\<close>
  adds it without consulting the switch. The response lists one email span in its
  detections and counts it in its statistics, while the redacted text is the original.
\<close>

theorem disabled_category_discovered:
  "detect_emails (email_matches mail_scans) [''redact_emails'' \<mapsto> PBool False] = []
   \<and> redact_text_endpoint mail_scans discovering_oracle mail_text [''redact_emails'' \<mapsto> PBool False]
     = Inr \<lparr>out_original = mail_text,
            out_redacted = mail_text,
            out_statistics = [(''emails'', 1), (''phones'', 0), (''names'', 0), (''addresses'', 0),
                              (''ssn'', 0), (''credit_cards'', 0)],
            out_detections = [(''emails'', [mail_email]), (''phones'', []), (''names'', []),
                              (''addresses'', []), (''ssn'', []), (''credit_cards'', [])],
            out_explanation = ''Found one email address.''\<rparr>"
  by code_simp

text \<open>
  The part of the gating that holds: the spans listed under a disabled category never
  reach the plan, so the redacted text is the one obtained without them.
\<close>

lemma disabled_category_not_labelled:
  assumes "\<not> enabled settings k"
  shows "label_items settings k items st = st"
  using assms by (cases st) (simp add: label_items_eq)

lemma disabled_category_not_redacted:
  assumes "\<not> enabled settings k" and "distinct (map fst dets)"
  shows "redact_text text dets settings
       = redact_text text (filter (\<lambda>kv. fst kv \<noteq> k) dets) settings"
proof -
  let ?f = "\<lambda>(pii_type, items).
              if enabled settings pii_type then labels_in_order settings pii_type items else []"
  have "concat (map ?f xs) = concat (map ?f (filter (\<lambda>kv. fst kv \<noteq> k) xs))" for xs
    using assms(1) by (induction xs) auto
  moreover have "distinct (map fst (filter (\<lambda>kv. fst kv \<noteq> k) dets))"
    using assms(2) by (simp add: distinct_map_filter)
  ultimately have "label_detections settings dets
        = label_detections settings (filter (\<lambda>kv. fst kv \<noteq> k) dets)"
    using assms(2) by (simp add: label_detections_eq)
  then show ?thesis
    by (simp add: redact_text_def redaction_plan_def)
qed


end
